theory Spec2Isabelle
  imports Complex_Main
begin

section \<open>Data model of \<^verbatim>\<open>src/js/tetris.ts\<close>\<close>

text \<open>
  The board has \<^verbatim>\<open>BOARD_ROW_NUM = 16\<close> rows and \<^verbatim>\<open>BOARD_COL_NUM = 10\<close> columns.
  A position \<^verbatim>\<open>{row, col}\<close> is a record. A row index is only ever initialised to 0,
  incremented, or set to an existing row plus a loop index, so it is a natural number; a
  column can be decremented below zero (\<^verbatim>\<open>topLeft.col - 1\<close>), so it is an integer.
  A cell of a shape matrix is a colour marker, 0 for an empty cell; the catalog only uses
  0 and 1, and the cells are natural numbers here (the source tests both \<^verbatim>\<open>!== 0\<close> and
  \<^verbatim>\<open>> 0\<close>, which agree on them). Rows of a shape may have different lengths.
\<close>

abbreviation BOARD_ROW_NUM :: nat where
  "BOARD_ROW_NUM \<equiv> 16"

abbreviation BOARD_COL_NUM :: int where
  "BOARD_COL_NUM \<equiv> 10"

record point =
  row :: nat
  col :: int

type_synonym matrix = "nat list list"

text \<open>
  A \<^verbatim>\<open>Tet\<close> object. \<^verbatim>\<open>tetType\<close> is the field \<^verbatim>\<open>type\<close> (0..6 for I, J, L, O, S, T, Z,
  and -1 while a fragment is under construction). The field \<^verbatim>\<open>perimeter\<close> is only read
  by the canvas drawing code and is left out, with \<^verbatim>\<open>getPerimeter\<close>. The constructor
  leaves \<^verbatim>\<open>rotation\<close>, \<^verbatim>\<open>pivot\<close> and \<^verbatim>\<open>pivotMax\<close> of a fragment undefined; they are 0
  in the model.
\<close>

record Tet =
  tetType :: int
  rotation :: nat
  pivot :: nat
  pivotMax :: nat
  topLeft :: point
  shape :: matrix

text \<open>
  The table \<^verbatim>\<open>matrixMatrix\<close> of \<^verbatim>\<open>Tet.getShapeMatrix\<close>: for every type the shapes of
  its rotations, trailing zeros left out as in the source.
\<close>

definition matrixMatrix :: "matrix list list" where
  "matrixMatrix =
    [ [ [[1,1,1,1]],       [[1],[1],[1],[1]] ],
      [ [[1,1,1],[0,0,1]], [[0,1],[0,1],[1,1]], [[1],[1,1,1]],     [[1,1],[1],[1]] ],
      [ [[1,1,1],[1]],     [[1,1],[0,1],[0,1]], [[0,0,1],[1,1,1]], [[1],[1],[1,1]] ],
      [ [[1,1],[1,1]] ],
      [ [[0,1,1],[1,1]],   [[1],[1,1],[0,1]] ],
      [ [[1,1,1],[0,1]],   [[0,1],[1,1],[0,1]], [[0,1],[1,1,1]],   [[1],[1,1],[1]] ],
      [ [[1,1],[0,1,1]],   [[0,1],[1,1],[1]] ] ]"

text \<open>
  \<^verbatim>\<open>Tet.getShapeMatrix(rotation)\<close>: sets \<^verbatim>\<open>this.pivotMax\<close> from the type and returns the
  shape. For a type outside 0..6 the table lookup is \<^verbatim>\<open>undefined\<close> and reading its
  \<^verbatim>\<open>length\<close> throws a TypeError: the result \<open>None\<close>. An index past the end of \<^verbatim>\<open>m\<close>
  yields \<^verbatim>\<open>undefined\<close>, which no caller can use as a shape: \<open>None\<close> as well.
\<close>

definition getShapeMatrix :: "nat \<Rightarrow> Tet \<Rightarrow> (matrix \<times> Tet) option" where
  "getShapeMatrix rot t =
    (if tetType t < 0 \<or> 7 \<le> tetType t then None
     else
       let m = matrixMatrix ! nat (tetType t);
           t' = t\<lparr>pivotMax := (if tetType t = 0 then 3 else if tetType t = 3 then 0 else 1)\<rparr>
       in if length m = 1 then Some (m ! 0, t')
          else if length m = 2 then Some (m ! (rot mod 2), t')
          else if length m = 4 then (if rot < 4 then Some (m ! rot, t') else None)
          else Some ([], t'))"

section \<open>Cleaning a fragment\<close>

text \<open>
  \<^verbatim>\<open>Tet.arrayIsAllZeros(arr)\<close>.
\<close>

fun arrayIsAllZeros :: "nat list \<Rightarrow> bool" where
  "arrayIsAllZeros [] = True"
| "arrayIsAllZeros (x # xs) = (if x > 0 then False else arrayIsAllZeros xs)"

text \<open>
  \<^verbatim>\<open>Tet.cleanShape(o)\<close>, first loop (\<^verbatim>\<open>while (true)\<close>): it stops as soon as some row
  starts with a positive cell (\<^verbatim>\<open>shape[row][0] > 0\<close>, false for an empty row, whose first
  element is \<^verbatim>\<open>undefined\<close>); otherwise it removes the first element of every row
  (\<^verbatim>\<open>splice(0, 1)\<close>, which leaves an empty row empty) and adds 1 to \<^verbatim>\<open>topLeft.col\<close>.
  Nothing bounds the loop, so it is a partial function: \<open>None\<close> is the loop that never
  ends.
\<close>

definition startsPositive :: "nat list \<Rightarrow> bool" where
  "startsPositive r = (case r of [] \<Rightarrow> False | x # _ \<Rightarrow> x > 0)"

partial_function (option) stripLeadingColumns :: "matrix \<Rightarrow> point \<Rightarrow> (matrix \<times> point) option" where
  "stripLeadingColumns sh p =
    (if list_ex startsPositive sh then Some (sh, p)
     else stripLeadingColumns (map (drop 1) sh) (p\<lparr>col := col p + 1\<rparr>))"

declare stripLeadingColumns.simps [code]

text \<open>
  Second loop of \<^verbatim>\<open>cleanShape\<close>: in every row, from the last column down, a zero is
  removed (\<^verbatim>\<open>splice(col, 1)\<close>) until a non-zero cell is met.
\<close>

definition stripTrailingZeros :: "nat list \<Rightarrow> nat list" where
  "stripTrailingZeros r = rev (dropWhile (\<lambda>x. x = 0) (rev r))"

definition cleanShape :: "matrix \<times> point \<Rightarrow> (matrix \<times> point) option" where
  "cleanShape ob =
    (case stripLeadingColumns (fst ob) (snd ob) of
       None \<Rightarrow> None
     | Some (sh, p) \<Rightarrow> Some (map stripTrailingZeros sh, p))"

section \<open>The game state\<close>

text \<open>
  \<^verbatim>\<open>Tet\<close> objects are shared by reference (\<^verbatim>\<open>allTets\<close>, \<^verbatim>\<open>currentTet\<close>, \<^verbatim>\<open>nextTet\<close>,
  the closure of a falling animation), so the state holds a store \<open>heap\<close>: the list of
  the objects made so far, a reference being the index of its object (only indexes
  below the length of the store are references). Row arrays are never shared
  between two objects: \<^verbatim>\<open>getShapeMatrix\<close> builds its table at every call, and
  \<^verbatim>\<open>updateTet\<close> hands every row to one fragment only.

  \<open>moveLoops\<close> lists the falling animations (\<^verbatim>\<open>moveLoop = setInterval(...)\<close> in
  \<^verbatim>\<open>collided\<close>) that are running, each by the Tet \<^verbatim>\<open>that\<close> of its closure.
  \<^verbatim>\<open>Math.floor(Math.random() * 7)\<close> is the next element, modulo 7, of an arbitrary
  sequence \<open>rnd\<close>; \<open>draws\<close> counts the elements used.

  \<^verbatim>\<open>score\<close> is a JavaScript number. Numbers are real numbers here, with the operators
  \<^verbatim>\<open>+\<close>, \<^verbatim>\<open>-\<close> and \<^verbatim>\<open>*\<close> of the reals; the operator \<^verbatim>\<open>**\<close>, whose result the language
  leaves to the implementation (an approximation of the power), is the field
  \<open>exponentiate\<close>: like \<open>rnd\<close> it belongs to the environment of the game, and no function
  of the model changes it.

  Not modelled: the canvas and the drawing (\<^verbatim>\<open>draw\<close> only reads the state, except
  that it refreshes the \<^verbatim>\<open>landed\<close> cache through \<^verbatim>\<open>doesTetCollideBot\<close>), the
  keyboard and focus handlers (the arrow keys apart), \<^verbatim>\<open>paused\<close>, \<^verbatim>\<open>devModeOn\<close>, the
  timer \<^verbatim>\<open>loop\<close> and the cookie with the high scores.
\<close>

type_synonym grid = "nat list list"

record Game =
  newTet :: bool
  currentTet :: "nat option"
  nextTet :: "nat option"
  updateLanded :: bool
  allTets :: "nat list"
  tetsToRemove :: "int list"
  gameOver :: bool
  landed :: grid
  heap :: "Tet list"
  moveLoops :: "nat list"
  rnd :: "nat \<Rightarrow> nat"
  draws :: nat
  score :: real
  exponentiate :: "real \<Rightarrow> real \<Rightarrow> real"

definition random7 :: "Game \<Rightarrow> int \<times> Game" where
  "random7 g = (int (rnd g (draws g) mod 7), g\<lparr>draws := draws g + 1\<rparr>)"

definition blankTet :: Tet where
  "blankTet = \<lparr>tetType = -1, rotation = 0, pivot = 0, pivotMax = 0,
               topLeft = \<lparr>row = 0, col = 0\<rparr>, shape = []\<rparr>"

text \<open>
  \<^verbatim>\<open>new Tet(game, type)\<close>. The test \<^verbatim>\<open>type && type >= -1 && type < 7\<close> is false for
  \<^verbatim>\<open>undefined\<close> and for 0, and then the type is drawn at random. The object gets the next
  reference.
\<close>

definition Tet_constructor :: "int option \<Rightarrow> Game \<Rightarrow> (nat \<times> Game) option" where
  "Tet_constructor ty g =
    (let (ty', g1) = (case ty of
                        Some v \<Rightarrow> if v \<noteq> 0 \<and> -1 \<le> v \<and> v < 7 then (v, g) else random7 g
                      | None \<Rightarrow> random7 g);
         t0 = blankTet\<lparr>tetType := ty'\<rparr>
     in if ty' > -1 then
          (case getShapeMatrix 0 (t0\<lparr>rotation := 0, pivot := 0, topLeft := \<lparr>row = 0, col = 4\<rparr>\<rparr>) of
             None \<Rightarrow> None
           | Some (m, t1) \<Rightarrow>
               Some (length (heap g1), g1\<lparr>heap := heap g1 @ [t1\<lparr>shape := m\<rparr>]\<rparr>))
        else Some (length (heap g1), g1\<lparr>heap := heap g1 @ [t0]\<rparr>))"

section \<open>The landed array\<close>

text \<open>
  \<^verbatim>\<open>this.landed[r][c] = 1\<close> in \<^verbatim>\<open>getLanded\<close>. When \<^verbatim>\<open>landed[r]\<close> is \<^verbatim>\<open>undefined\<close> the
  assignment throws a TypeError (\<open>None\<close>). A column outside the row array makes
  JavaScript extend the array (or add a property for a negative index); the model keeps
  the row as it is, because a later read of a column outside 0..9 is \<^verbatim>\<open>undefined\<close> or 1
  and every such read in the source only asks whether the value is \<^verbatim>\<open>!== 0\<close>.
\<close>

definition setLanded :: "grid \<Rightarrow> nat \<Rightarrow> int \<Rightarrow> grid option" where
  "setLanded L r c =
    (if r < length L
     then Some (if 0 \<le> c \<and> nat c < length (L ! r) then L[r := (L ! r)[nat c := 1]] else L)
     else None)"

text \<open>
  \<^verbatim>\<open>landed[r][c] !== 0\<close>: a TypeError when \<^verbatim>\<open>landed[r]\<close> is \<^verbatim>\<open>undefined\<close>, true when
  the column is outside the row (\<^verbatim>\<open>undefined !== 0\<close>).
\<close>

definition landedNonZero :: "grid \<Rightarrow> nat \<Rightarrow> int \<Rightarrow> bool option" where
  "landedNonZero L r c =
    (if r < length L
     then Some (if 0 \<le> c \<and> nat c < length (L ! r) then L ! r ! nat c \<noteq> 0 else True)
     else None)"

fun stampRow :: "nat list \<Rightarrow> nat \<Rightarrow> int \<Rightarrow> grid \<Rightarrow> grid option" where
  "stampRow [] r c L = Some L"
| "stampRow (x # xs) r c L =
    (if x \<noteq> 0
     then (case setLanded L r c of None \<Rightarrow> None | Some L' \<Rightarrow> stampRow xs r (c + 1) L')
     else stampRow xs r (c + 1) L)"

fun stampShape :: "matrix \<Rightarrow> nat \<Rightarrow> int \<Rightarrow> grid \<Rightarrow> grid option" where
  "stampShape [] r c L = Some L"
| "stampShape (xs # rows) r c L =
    (case stampRow xs r c L of None \<Rightarrow> None | Some L' \<Rightarrow> stampShape rows (r + 1) c L')"

fun stampTets :: "Tet list \<Rightarrow> nat option \<Rightarrow> nat option \<Rightarrow> nat list \<Rightarrow> grid \<Rightarrow> grid option" where
  "stampTets h cur tet [] L = Some L"
| "stampTets h cur tet (i # is) L =
    (if Some i = cur \<or> Some i = tet then stampTets h cur tet is L
     else (case stampShape (shape (h ! i)) (row (topLeft (h ! i))) (col (topLeft (h ! i))) L of
             None \<Rightarrow> None
           | Some L' \<Rightarrow> stampTets h cur tet is L'))"

text \<open>
  \<^verbatim>\<open>Game.getLanded(tet?)\<close>: with an argument, or when \<^verbatim>\<open>updateLanded\<close> is set, the 16
  rows are replaced by rows of ten zeros and every Tet of \<^verbatim>\<open>allTets\<close> but \<^verbatim>\<open>currentTet\<close>
  and \<^verbatim>\<open>tet\<close> is written into them; otherwise the array of the last call is returned.
\<close>

definition getLanded :: "nat option \<Rightarrow> Game \<Rightarrow> (grid \<times> Game) option" where
  "getLanded tet g =
    (let g1 = (if tet \<noteq> None then g\<lparr>updateLanded := True\<rparr> else g) in
     if updateLanded g1 then
       (case stampTets (heap g1) (currentTet g1) tet (allTets g1)
               (replicate BOARD_ROW_NUM [0, 0, 0, 0, 0, 0, 0, 0, 0, 0]) of
          None \<Rightarrow> None
        | Some L \<Rightarrow> Some (L, g1\<lparr>landed := L, updateLanded := False\<rparr>))
     else Some (landed g1, g1))"

section \<open>Collision checks\<close>

text \<open>
  \<^verbatim>\<open>Tet.doesTetCollideBot(potentialTopLeft)\<close>. In the scans below \<open>r\<close> and \<open>c\<close> are
  \<^verbatim>\<open>row + potentialTopLeft.row\<close> and \<^verbatim>\<open>col + potentialTopLeft.col\<close> of the cell at hand.
\<close>

fun botRow :: "nat list \<Rightarrow> nat \<Rightarrow> int \<Rightarrow> grid \<Rightarrow> bool option" where
  "botRow [] r c L = Some False"
| "botRow (x # xs) r c L =
    (if x \<noteq> 0 then
       (if r \<ge> BOARD_ROW_NUM then Some True
        else (case landedNonZero L r c of
                None \<Rightarrow> None
              | Some True \<Rightarrow> Some True
              | Some False \<Rightarrow> botRow xs r (c + 1) L))
     else botRow xs r (c + 1) L)"

fun botRows :: "matrix \<Rightarrow> nat \<Rightarrow> int \<Rightarrow> grid \<Rightarrow> bool option" where
  "botRows [] r c L = Some False"
| "botRows (xs # rows) r c L =
    (case botRow xs r c L of
       None \<Rightarrow> None
     | Some True \<Rightarrow> Some True
     | Some False \<Rightarrow> botRows rows (r + 1) c L)"

definition doesTetCollideBot :: "nat \<Rightarrow> point \<Rightarrow> Game \<Rightarrow> (bool \<times> Game) option" where
  "doesTetCollideBot this p g =
    (case getLanded (Some this) g of
       None \<Rightarrow> None
     | Some (L, g1) \<Rightarrow>
         (case botRows (shape (heap g1 ! this)) (row p) (col p) L of
            None \<Rightarrow> None
          | Some b \<Rightarrow> Some (b, g1)))"

text \<open>
  \<^verbatim>\<open>Tet.doesTetCollideSide(potentialTopLeft, direction?)\<close>. The scan returns whether a
  cell collides, with the Tet as the scan leaves it: \<^verbatim>\<open>this.pivot++\<close> happens right
  before \<^verbatim>\<open>return true\<close>.
\<close>

definition pivotUp :: "Tet \<Rightarrow> Tet" where
  "pivotUp t = (if pivot t < pivotMax t \<and> rotation t mod 2 = 0 then t\<lparr>pivot := pivot t + 1\<rparr> else t)"

fun sideRow :: "nat list \<Rightarrow> nat \<Rightarrow> int \<Rightarrow> int option \<Rightarrow> grid \<Rightarrow> Tet \<Rightarrow> (bool \<times> Tet) option" where
  "sideRow [] r c direction L t = Some (False, t)"
| "sideRow (x # xs) r c direction L t =
    (if x \<noteq> 0 then
       (if c < 0 then Some (True, t)
        else if c \<ge> BOARD_COL_NUM then Some (True, pivotUp t)
        else (case landedNonZero L r c of
                None \<Rightarrow> None
              | Some True \<Rightarrow> Some (True, if direction = Some 1 then pivotUp t else t)
              | Some False \<Rightarrow> sideRow xs r (c + 1) direction L t))
     else sideRow xs r (c + 1) direction L t)"

fun sideRows :: "matrix \<Rightarrow> nat \<Rightarrow> int \<Rightarrow> int option \<Rightarrow> grid \<Rightarrow> Tet \<Rightarrow> (bool \<times> Tet) option" where
  "sideRows [] r c direction L t = Some (False, t)"
| "sideRows (xs # rows) r c direction L t =
    (case sideRow xs r c direction L t of
       None \<Rightarrow> None
     | Some (True, t') \<Rightarrow> Some (True, t')
     | Some (False, t') \<Rightarrow> sideRows rows (r + 1) c direction L t')"

definition doesTetCollideSide :: "nat \<Rightarrow> point \<Rightarrow> int option \<Rightarrow> Game \<Rightarrow> (bool \<times> Game) option" where
  "doesTetCollideSide this p direction g =
    (case getLanded None g of
       None \<Rightarrow> None
     | Some (L, g1) \<Rightarrow>
         (case sideRows (shape (heap g1 ! this)) (row p) (col p) direction L (heap g1 ! this) of
            None \<Rightarrow> None
          | Some (b, t') \<Rightarrow> Some (b, g1\<lparr>heap := (heap g1)[this := t']\<rparr>)))"

section \<open>Rotation and moves\<close>

text \<open>
  \<^verbatim>\<open>Tet.rotate()\<close> (named \<open>rotate_tet\<close> here). The scan answers whether some cell of
  the potential shape fails one of the four checks, in the order of the source.
\<close>

fun rotateRow :: "nat list \<Rightarrow> nat \<Rightarrow> int \<Rightarrow> grid \<Rightarrow> bool option" where
  "rotateRow [] r c L = Some False"
| "rotateRow (x # xs) r c L =
    (if x \<noteq> 0 then
       (if c < 0 then Some True
        else if c \<ge> BOARD_COL_NUM then Some True
        else if r \<ge> BOARD_ROW_NUM then Some True
        else (case landedNonZero L r c of
                None \<Rightarrow> None
              | Some True \<Rightarrow> Some True
              | Some False \<Rightarrow> rotateRow xs r (c + 1) L))
     else rotateRow xs r (c + 1) L)"

fun rotateRows :: "matrix \<Rightarrow> nat \<Rightarrow> int \<Rightarrow> grid \<Rightarrow> bool option" where
  "rotateRows [] r c L = Some False"
| "rotateRows (xs # rows) r c L =
    (case rotateRow xs r c L of
       None \<Rightarrow> None
     | Some True \<Rightarrow> Some True
     | Some False \<Rightarrow> rotateRows rows (r + 1) c L)"

definition rotate_tet :: "nat \<Rightarrow> Game \<Rightarrow> (bool \<times> Game) option" where
  "rotate_tet this g =
    (case getLanded None g of
       None \<Rightarrow> None
     | Some (L, g1) \<Rightarrow>
         let t = heap g1 ! this;
             potRot = (if rotation t < 3 then rotation t + 1 else 0)
         in (case getShapeMatrix potRot t of
               None \<Rightarrow> None
             | Some (potShape, t1) \<Rightarrow>
                 (case rotateRows potShape (row (topLeft t1)) (col (topLeft t1)) L of
                    None \<Rightarrow> None
                  | Some True \<Rightarrow> Some (False, g1\<lparr>heap := (heap g1)[this := t1]\<rparr>)
                  | Some False \<Rightarrow>
                      Some (True, g1\<lparr>heap := (heap g1)[this := t1
                        \<lparr>topLeft := (topLeft t1)\<lparr>col := col (topLeft t1) + int (pivot t1)\<rparr>,
                         pivot := 0, rotation := potRot, shape := potShape\<rparr>]\<rparr>))))"

text \<open>
  \<^verbatim>\<open>Tet.moveLeft()\<close> and \<^verbatim>\<open>Tet.moveRight()\<close>.
\<close>

definition moveLeft :: "nat \<Rightarrow> Game \<Rightarrow> Game option" where
  "moveLeft this g =
    (let g0 = g\<lparr>heap := (heap g)[this := (heap g ! this)\<lparr>pivot := 0\<rparr>]\<rparr>;
         potentialTopLeft = \<lparr>row = row (topLeft (heap g0 ! this)), col = col (topLeft (heap g0 ! this)) - 1\<rparr>
     in (case doesTetCollideSide this potentialTopLeft None g0 of
           None \<Rightarrow> None
         | Some (True, g1) \<Rightarrow> Some g1
         | Some (False, g1) \<Rightarrow>
             Some (g1\<lparr>heap := (heap g1)[this := (heap g1 ! this)\<lparr>topLeft := potentialTopLeft\<rparr>]\<rparr>)))"

definition moveRight :: "nat \<Rightarrow> Game \<Rightarrow> Game option" where
  "moveRight this g =
    (let potentialTopLeft = \<lparr>row = row (topLeft (heap g ! this)), col = col (topLeft (heap g ! this)) + 1\<rparr>
     in (case doesTetCollideSide this potentialTopLeft (Some 1) g of
           None \<Rightarrow> None
         | Some (True, g1) \<Rightarrow> Some g1
         | Some (False, g1) \<Rightarrow>
             Some (g1\<lparr>heap := (heap g1)[this := (heap g1 ! this)\<lparr>topLeft := potentialTopLeft\<rparr>]\<rparr>)))"

section \<open>Row elimination and fragments\<close>

text \<open>
  The first loop of \<^verbatim>\<open>Tet.updateTet()\<close>, which builds the queue \<^verbatim>\<open>q\<close>: \<open>k\<close> is the
  loop index \<^verbatim>\<open>row\<close>, \<open>thisTL\<close> is \<^verbatim>\<open>this.topLeft\<close>, \<open>currShape\<close> and \<open>tpl\<close> are the
  variables \<^verbatim>\<open>currShape\<close> and \<^verbatim>\<open>topLeft\<close>. The last equation is the push after the loop.
\<close>

fun buildQueue :: "matrix \<Rightarrow> nat \<Rightarrow> point \<Rightarrow> matrix \<Rightarrow> point \<Rightarrow> (matrix \<times> point) list
    \<Rightarrow> (matrix \<times> point) list" where
  "buildQueue [] k thisTL currShape tpl q =
    (if length currShape > 0 then q @ [(currShape, tpl)] else q)"
| "buildQueue (r # rs) k thisTL currShape tpl q =
    (if \<not> arrayIsAllZeros r then
       buildQueue rs (k + 1) thisTL (currShape @ [r])
         (if length currShape = 0 then \<lparr>row = row thisTL + k, col = col thisTL\<rparr> else tpl) q
     else if length currShape = 0 then buildQueue rs (k + 1) thisTL currShape tpl q
     else buildQueue rs (k + 1) thisTL [] tpl (q @ [(currShape, tpl)]))"

text \<open>
  \<^verbatim>\<open>Array.prototype.indexOf\<close> (the first index, or -1) and \<^verbatim>\<open>splice(start, 1)\<close> (a
  negative start counts from the end, a start past the end removes nothing).
\<close>

fun indexOf :: "nat list \<Rightarrow> nat \<Rightarrow> int" where
  "indexOf [] x = -1"
| "indexOf (y # ys) x =
    (if y = x then 0 else (let k = indexOf ys x in if k < 0 then -1 else k + 1))"

definition splice1 :: "int \<Rightarrow> 'a list \<Rightarrow> 'a list" where
  "splice1 start xs =
    (let n = int (length xs);
         s = (if start < 0 then max (n + start) 0 else min start n)
     in take (nat s) xs @ drop (nat s + 1) xs)"

text \<open>
  The second loop of \<^verbatim>\<open>updateTet\<close>: the first cleaned fragment replaces the position
  and the shape of \<^verbatim>\<open>this\<close>; every other one becomes \<^verbatim>\<open>new Tet(this.game, -1)\<close> with
  \<^verbatim>\<open>newTet.type = this.type\<close>, pushed onto \<^verbatim>\<open>allTets\<close>. \<open>qs\<close> is the loop index.
\<close>

fun processQueue :: "nat \<Rightarrow> (matrix \<times> point) list \<Rightarrow> nat \<Rightarrow> Game \<Rightarrow> Game option" where
  "processQueue this [] qs g = Some g"
| "processQueue this (ob # obs) qs g =
    (case cleanShape ob of
       None \<Rightarrow> None
     | Some (sh, p) \<Rightarrow>
         if qs = 0 then
           processQueue this obs (qs + 1)
             (g\<lparr>heap := (heap g)[this := (heap g ! this)\<lparr>topLeft := p, shape := sh\<rparr>]\<rparr>)
         else
           (case Tet_constructor (Some (-1)) g of
              None \<Rightarrow> None
            | Some (n, g1) \<Rightarrow>
                processQueue this obs (qs + 1)
                  (g1\<lparr>heap := (heap g1)[n := (heap g1 ! n)
                         \<lparr>tetType := tetType (heap g1 ! this), topLeft := p, shape := sh\<rparr>],
                       allTets := allTets g1 @ [n]\<rparr>)))"

definition updateTet :: "nat \<Rightarrow> Game \<Rightarrow> Game option" where
  "updateTet this g =
    (let t = heap g ! this;
         q = buildQueue (shape t) 0 (topLeft t) [] (topLeft t) [];
         g1 = (if length q = 0
               then g\<lparr>tetsToRemove := tetsToRemove g @ [indexOf (allTets g) this]\<rparr>
               else g)
     in processQueue this q 0 g1)"

text \<open>
  \<^verbatim>\<open>Tet.alterShape(fullRows)\<close>: every full row that lies inside the shape is overwritten
  with zeros, then \<^verbatim>\<open>updateTet\<close> runs.
\<close>

fun zeroRows :: "nat list \<Rightarrow> nat \<Rightarrow> matrix \<Rightarrow> matrix" where
  "zeroRows [] tr sh = sh"
| "zeroRows (f # fs) tr sh =
    (let r = int f - int tr in
     if r < 0 \<or> r > int (length sh) - 1 then zeroRows fs tr sh
     else zeroRows fs tr (sh[nat r := map (\<lambda>_. 0) (sh ! nat r)]))"

definition alterShape :: "nat \<Rightarrow> nat list \<Rightarrow> Game \<Rightarrow> Game option" where
  "alterShape this fullRows g =
    updateTet this
      (g\<lparr>heap := (heap g)[this := (heap g ! this)
            \<lparr>shape := zeroRows fullRows (row (topLeft (heap g ! this))) (shape (heap g ! this))\<rparr>]\<rparr>)"

text \<open>
  \<^verbatim>\<open>Game.alterShapes(fullRows)\<close>. The first loop runs over the Tets that are in
  \<^verbatim>\<open>allTets\<close> when it starts (\<^verbatim>\<open>len\<close> is read once, and \<^verbatim>\<open>updateTet\<close> only appends).
  With an empty \<^verbatim>\<open>fullRows\<close> both bounds are \<^verbatim>\<open>undefined\<close> and no Tet is skipped.
\<close>

definition skipTet :: "nat list \<Rightarrow> nat \<Rightarrow> bool" where
  "skipTet fullRows r =
    (case fullRows of
       [] \<Rightarrow> False
     | firstRow # _ \<Rightarrow> int r \<le> int firstRow - 4 \<or> r > last fullRows)"

fun alterLoop :: "nat list \<Rightarrow> nat list \<Rightarrow> Game \<Rightarrow> Game option" where
  "alterLoop [] fullRows g = Some g"
| "alterLoop (i # is) fullRows g =
    (if skipTet fullRows (row (topLeft (heap g ! i))) then alterLoop is fullRows g
     else (case alterShape i fullRows g of
             None \<Rightarrow> None
           | Some g1 \<Rightarrow> alterLoop is fullRows g1))"

fun removeTets :: "int list \<Rightarrow> int \<Rightarrow> nat list \<Rightarrow> nat list" where
  "removeTets [] i aT = aT"
| "removeTets (k # ks) i aT = removeTets ks (i + 1) (splice1 (k - i) aT)"

definition alterShapes :: "nat list \<Rightarrow> Game \<Rightarrow> Game option" where
  "alterShapes fullRows g =
    (case alterLoop (allTets g) fullRows g of
       None \<Rightarrow> None
     | Some g1 \<Rightarrow>
         Some (g1\<lparr>allTets := removeTets (tetsToRemove g1) 0 (allTets g1),
                  tetsToRemove := [], updateLanded := True\<rparr>))"

section \<open>Landing, falling animation, new Tets\<close>

text \<open>
  The row scan of \<^verbatim>\<open>Tet.collided()\<close>: a row is filled when none of its ten cells
  is \<^verbatim>\<open>=== 0\<close>; the rows from \<^verbatim>\<open>this.topLeft.row\<close> to 15 are scanned in order.
\<close>

fun isFilled :: "grid \<Rightarrow> nat \<Rightarrow> int list \<Rightarrow> bool option" where
  "isFilled L r [] = Some True"
| "isFilled L r (c # cs) =
    (case landedNonZero L r c of
       None \<Rightarrow> None
     | Some nz \<Rightarrow> (case isFilled L r cs of None \<Rightarrow> None | Some b \<Rightarrow> Some (nz \<and> b)))"

fun findFullRows :: "grid \<Rightarrow> nat list \<Rightarrow> nat list option" where
  "findFullRows L [] = Some []"
| "findFullRows L (r # rs) =
    (case isFilled L r [0, 1, 2, 3, 4, 5, 6, 7, 8, 9] of
       None \<Rightarrow> None
     | Some b \<Rightarrow>
         (case findFullRows L rs of
            None \<Rightarrow> None
          | Some fullRows \<Rightarrow> Some (if b then r # fullRows else fullRows)))"

text \<open>
  \<^verbatim>\<open>Tet.collided()\<close> up to \<^verbatim>\<open>setInterval\<close>: the callback is registered in
  \<open>moveLoops\<close> and runs later (\<open>moveLoopTick\<close>). \<open>scoreGain n\<close> is the amount
  \<^verbatim>\<open>(fRLen ** (1 + (fRLen - 1) * 0.1)) * 10000\<close> for \<^verbatim>\<open>fRLen = n\<close>.
\<close>

definition scoreGain :: "Game \<Rightarrow> nat \<Rightarrow> real" where
  "scoreGain g fRLen = exponentiate g (real fRLen) (1 + (real fRLen - 1) * 0.1) * 10000"


definition collided :: "nat \<Rightarrow> Game \<Rightarrow> Game option" where
  "collided this g =
    (case getLanded None g of
       None \<Rightarrow> None
     | Some (L, g1) \<Rightarrow>
         (case findFullRows L [row (topLeft (heap g1 ! this)) ..< BOARD_ROW_NUM] of
            None \<Rightarrow> None
          | Some fullRows \<Rightarrow>
              let g2 = g1\<lparr>updateLanded := True\<rparr> in
              if length fullRows = 0 then Some g2
              else (case alterShapes fullRows
                           (g2\<lparr>score := score g2 + scoreGain g2 (length fullRows)\<rparr>) of
                      None \<Rightarrow> None
                    | Some g3 \<Rightarrow>
                        Some (g3\<lparr>updateLanded := True, moveLoops := moveLoops g3 @ [this]\<rparr>))))"

text \<open>
  \<^verbatim>\<open>Tet.moveDown()\<close>.
\<close>

definition moveDown :: "nat \<Rightarrow> Game \<Rightarrow> Game option" where
  "moveDown this g =
    (let potentialTopLeft = \<lparr>row = row (topLeft (heap g ! this)) + 1, col = col (topLeft (heap g ! this))\<rparr>
     in (case doesTetCollideBot this potentialTopLeft g of
           None \<Rightarrow> None
         | Some (False, g1) \<Rightarrow>
             Some (g1\<lparr>heap := (heap g1)[this := (heap g1 ! this)\<lparr>topLeft := potentialTopLeft\<rparr>]\<rparr>)
         | Some (True, g1) \<Rightarrow>
             collided this (g1\<lparr>newTet := True, currentTet := None, updateLanded := True\<rparr>)))"

text \<open>
  One run of the \<^verbatim>\<open>for\<close> loop inside the callback of \<^verbatim>\<open>collided\<close>, over the Tets of
  \<^verbatim>\<open>allTets\<close>: \<open>movingTets\<close> and \<open>tetsMoved\<close> are the variables of the source.
\<close>

fun settlePass :: "nat list \<Rightarrow> Game \<Rightarrow> nat list \<Rightarrow> bool \<Rightarrow> (Game \<times> nat list \<times> bool) option" where
  "settlePass [] g movingTets tetsMoved = Some (g, movingTets, tetsMoved)"
| "settlePass (i # is) g movingTets tetsMoved =
    (if i \<in> set movingTets \<or> (Some i = currentTet g \<and> \<not> newTet g)
     then settlePass is g movingTets tetsMoved
     else
       let potTL = \<lparr>row = row (topLeft (heap g ! i)) + 1, col = col (topLeft (heap g ! i))\<rparr> in
       (case doesTetCollideBot i potTL g of
          None \<Rightarrow> None
        | Some (True, g1) \<Rightarrow> settlePass is g1 movingTets tetsMoved
        | Some (False, g1) \<Rightarrow>
            settlePass is (g1\<lparr>heap := (heap g1)[i := (heap g1 ! i)\<lparr>topLeft := potTL\<rparr>]\<rparr>)
              (movingTets @ [i]) True))"

lemma getLanded_frame:
  "getLanded tet g = Some (L, g') \<Longrightarrow> g' = g\<lparr>landed := L, updateLanded := False\<rparr>"
  unfolding getLanded_def Let_def
  by (cases "updateLanded g") (auto split: if_splits option.splits)

lemma doesTetCollideBot_frame:
  "doesTetCollideBot i p g = Some (b, g') \<Longrightarrow> \<exists>L'. g' = g\<lparr>landed := L', updateLanded := False\<rparr>"
  unfolding doesTetCollideBot_def
  by (auto split: option.splits dest!: getLanded_frame)

lemma settlePass_allTets:
  "settlePass xs g mv m = Some (g', mv', m') \<Longrightarrow> allTets g' = allTets g"
proof (induction xs arbitrary: g mv m)
  case Nil
  then show ?case by simp
next
  case (Cons i xs)
  show ?case
  proof (cases "i \<in> set mv \<or> (Some i = currentTet g \<and> \<not> newTet g)")
    case True
    with Cons show ?thesis by simp
  next
    case False
    let ?p = "\<lparr>row = row (topLeft (heap g ! i)) + 1, col = col (topLeft (heap g ! i))\<rparr>"
    from Cons.prems False obtain b g1 where d: "doesTetCollideBot i ?p g = Some (b, g1)"
      by (auto simp: Let_def split: option.splits)
    from doesTetCollideBot_frame[OF d] have a: "allTets g1 = allTets g" by auto
    show ?thesis
    proof (cases b)
      case True
      with Cons.prems False d have "settlePass xs g1 mv m = Some (g', mv', m')" by (simp add: Let_def)
      from Cons.IH[OF this] a show ?thesis by simp
    next
      case nb: False
      with Cons.prems False d
      have "settlePass xs (g1\<lparr>heap := (heap g1)[i := (heap g1 ! i)\<lparr>topLeft := ?p\<rparr>]\<rparr>) (mv @ [i]) True
            = Some (g', mv', m')" by (simp add: Let_def)
      from Cons.IH[OF this] a show ?thesis by simp
    qed
  qed
qed

lemma settlePass_moving:
  "settlePass xs g mv m = Some (g', mv', m') \<Longrightarrow>
     set mv \<subseteq> set mv' \<and> set mv' \<subseteq> set mv \<union> set xs \<and>
     (m' \<longrightarrow> m \<or> (\<exists>i. i \<in> set xs \<and> i \<notin> set mv \<and> i \<in> set mv'))"
proof (induction xs arbitrary: g mv m)
  case Nil
  then show ?case by auto
next
  case (Cons i xs)
  show ?case
  proof (cases "i \<in> set mv \<or> (Some i = currentTet g \<and> \<not> newTet g)")
    case True
    with Cons.prems have "settlePass xs g mv m = Some (g', mv', m')" by simp
    from Cons.IH[OF this] show ?thesis by auto
  next
    case False
    let ?p = "\<lparr>row = row (topLeft (heap g ! i)) + 1, col = col (topLeft (heap g ! i))\<rparr>"
    from Cons.prems False obtain b g1 where d: "doesTetCollideBot i ?p g = Some (b, g1)"
      by (auto simp: Let_def split: option.splits)
    show ?thesis
    proof (cases b)
      case True
      with Cons.prems False d have "settlePass xs g1 mv m = Some (g', mv', m')" by (simp add: Let_def)
      from Cons.IH[OF this] show ?thesis by auto
    next
      case nb: False
      with Cons.prems False d
      have "settlePass xs (g1\<lparr>heap := (heap g1)[i := (heap g1 ! i)\<lparr>topLeft := ?p\<rparr>]\<rparr>) (mv @ [i]) True
            = Some (g', mv', m')" by (simp add: Let_def)
      from Cons.IH[OF this] False show ?thesis by auto
    qed
  qed
qed

text \<open>
  The \<^verbatim>\<open>while (tetsMoved)\<close> loop of the callback: the pass is repeated as long as it
  moved a Tet. A Tet that moved is in \<^verbatim>\<open>movingTets\<close> and is skipped from then on, so
  the loop ends.
\<close>

function settleWhile :: "Game \<Rightarrow> nat list \<Rightarrow> (Game \<times> nat list) option" where
  "settleWhile g movingTets =
    (case settlePass (allTets g) g movingTets False of
       None \<Rightarrow> None
     | Some (g1, movingTets1, tetsMoved) \<Rightarrow>
         if tetsMoved then settleWhile (g1\<lparr>updateLanded := True\<rparr>) movingTets1
         else Some (g1\<lparr>updateLanded := True\<rparr>, movingTets1))"
  by pat_completeness auto
termination
proof (relation "measure (\<lambda>(g, mv). card (set (allTets g) - set mv))", goal_cases)
  case 1
  show ?case by simp
next
  case (2 g mv x2 g1 y mv1 moved)
  then have sp: "settlePass (allTets g) g mv False = Some (g1, mv1, True)" by simp
  from settlePass_allTets[OF sp] have a: "allTets g1 = allTets g" .
  from settlePass_moving[OF sp] obtain i where
    sub: "set mv \<subseteq> set mv1" and i: "i \<in> set (allTets g)" "i \<notin> set mv" "i \<in> set mv1" by auto
  have "set (allTets g) - set mv1 \<subset> set (allTets g) - set mv" using sub i by auto
  then have "card (set (allTets g) - set mv1) < card (set (allTets g) - set mv)"
    by (intro psubset_card_mono) auto
  with a show ?case by simp
qed

declare settleWhile.simps [simp del]

text \<open>
  One round of the falling animation: the loop started with \<^verbatim>\<open>movingTets = []\<close>.
\<close>

definition settleRound :: "Game \<Rightarrow> (Game \<times> nat list) option" where
  "settleRound g = settleWhile g []"

text \<open>
  The callback of \<^verbatim>\<open>setInterval\<close> in \<^verbatim>\<open>collided\<close>, for the \<open>k\<close>-th running animation:
  when no Tet moved, \<^verbatim>\<open>clearInterval(moveLoop)\<close> and \<^verbatim>\<open>that.collided()\<close>.
\<close>

definition moveLoopTick :: "nat \<Rightarrow> Game \<Rightarrow> Game option" where
  "moveLoopTick k g =
    (if k < length (moveLoops g) then
       (case settleRound g of
          None \<Rightarrow> None
        | Some (g1, movingTets) \<Rightarrow>
            if length movingTets = 0
            then collided (moveLoops g1 ! k)
                   (g1\<lparr>moveLoops := take k (moveLoops g1) @ drop (k + 1) (moveLoops g1)\<rparr>)
            else Some g1)
     else Some g)"

text \<open>
  \<^verbatim>\<open>Game.createTet()\<close> in three parts. First the statement
  \<^verbatim>\<open>if (this.nextTet === null) { ... }\<close>, which makes the first Tet of a game (not an S
  or a Z: a draw of 4 or 6 is lowered by one).
\<close>

definition firstNextTet :: "Game \<Rightarrow> Game option" where
  "firstNextTet g =
    (if nextTet g = None then
       (let (t, ga) = random7 g;
            t' = (if t = 4 \<or> t = 6 then t - 1 else t)
        in (case Tet_constructor (Some t') ga of
              None \<Rightarrow> None
            | Some (n, gb) \<Rightarrow> Some (gb\<lparr>nextTet := Some n\<rparr>)))
     else Some g)"

text \<open>
  Then the statements from \<^verbatim>\<open>if (this.newTet) { ... }\<close> to
  \<^verbatim>\<open>if (!this.currentTet) { ... }\<close>, and \<open>chooseTets\<close>, the two parts in sequence:
  \<^verbatim>\<open>createTet\<close> up to the comment \<^verbatim>\<open>// Display Game Over\<close>.
\<close>

definition buildTets :: "Game \<Rightarrow> Game option" where
  "buildTets g1 =
    (case (if newTet g1 then
             (case Tet_constructor None (g1\<lparr>currentTet := nextTet g1\<rparr>) of
                None \<Rightarrow> None
              | Some (n, gc) \<Rightarrow> Some (gc\<lparr>nextTet := Some n\<rparr>))
           else Some g1) of
       None \<Rightarrow> None
     | Some g2 \<Rightarrow>
         let g3 = g2\<lparr>newTet := False\<rparr> in
         Some (if currentTet g3 = None then g3\<lparr>currentTet := nextTet g3\<rparr> else g3))"

definition chooseTets :: "Game \<Rightarrow> Game option" where
  "chooseTets g = (case firstNextTet g of None \<Rightarrow> None | Some g1 \<Rightarrow> buildTets g1)"

text \<open>
  \<^verbatim>\<open>Game.createTet()\<close>, whole: after the choice, the collision test of the current Tet
  at its own position decides between game over and the push onto \<^verbatim>\<open>allTets\<close>.
\<close>

definition createTet :: "Game \<Rightarrow> Game option" where
  "createTet g =
    (case chooseTets g of
       None \<Rightarrow> None
     | Some g4 \<Rightarrow>
         (case currentTet g4 of
            None \<Rightarrow> None
          | Some c \<Rightarrow>
              (case doesTetCollideBot c (topLeft (heap g4 ! c)) g4 of
                 None \<Rightarrow> None
               | Some (True, g5) \<Rightarrow>
                   Some (g5\<lparr>nextTet := currentTet g5, gameOver := True, newTet := True\<rparr>)
               | Some (False, g5) \<Rightarrow> Some (g5\<lparr>allTets := allTets g5 @ [c]\<rparr>))))"

section \<open>Running a game\<close>

text \<open>
  The field initialisers of \<^verbatim>\<open>Game\<close> and its constructor, which calls \<^verbatim>\<open>createTet\<close>.
  A game that is constructed here has the power of the reals for \<^verbatim>\<open>**\<close>.
\<close>

definition initialGame :: "(nat \<Rightarrow> nat) \<Rightarrow> Game" where
  "initialGame r =
    \<lparr>newTet = True, currentTet = None, nextTet = None, updateLanded = True, allTets = [],
     tetsToRemove = [], gameOver = False, landed = [], heap = [],
     moveLoops = [], rnd = r, draws = 0, score = 0, exponentiate = (powr)\<rparr>"

definition Game_constructor :: "(nat \<Rightarrow> nat) \<Rightarrow> Game option" where
  "Game_constructor r = createTet (initialGame r)"

text \<open>
  What reaches the game while it runs (\<^verbatim>\<open>paused\<close> and \<^verbatim>\<open>devModeOn\<close> false, so that
  \<^verbatim>\<open>canTetMove()\<close> is \<^verbatim>\<open>newTet === false && gameOver === false\<close>): the callback of
  \<^verbatim>\<open>tetDownLoop\<close> (cleared by \<^verbatim>\<open>createTet\<close> when the game is over), the arrow keys of
  \<^verbatim>\<open>handleEvents\<close>, and the callback of a falling animation.
\<close>

datatype command = LoopTick | KeyLeft | KeyRight | KeyDown | KeyUp | MoveLoopTick nat

definition canTetMove :: "Game \<Rightarrow> bool" where
  "canTetMove g = (\<not> newTet g \<and> \<not> gameOver g)"

fun exec :: "command \<Rightarrow> Game \<Rightarrow> Game option" where
  "exec LoopTick g =
    (if gameOver g then Some g
     else if newTet g then createTet g
     else (case currentTet g of None \<Rightarrow> Some g | Some c \<Rightarrow> moveDown c g))"
| "exec KeyUp g =
    (case (canTetMove g, currentTet g) of
       (True, Some c) \<Rightarrow> map_option snd (rotate_tet c g)
     | _ \<Rightarrow> Some g)"
| "exec KeyLeft g =
    (case (canTetMove g, currentTet g) of (True, Some c) \<Rightarrow> moveLeft c g | _ \<Rightarrow> Some g)"
| "exec KeyRight g =
    (case (canTetMove g, currentTet g) of (True, Some c) \<Rightarrow> moveRight c g | _ \<Rightarrow> Some g)"
| "exec KeyDown g =
    (case (canTetMove g, currentTet g) of (True, Some c) \<Rightarrow> moveDown c g | _ \<Rightarrow> Some g)"
| "exec (MoveLoopTick k) g = moveLoopTick k g"

fun run :: "command list \<Rightarrow> Game \<Rightarrow> Game option" where
  "run [] g = Some g"
| "run (c # cs) g = (case exec c g of None \<Rightarrow> None | Some g' \<Rightarrow> run cs g')"

text \<open>
  The board cells that a shape at a position occupies (its non-zero cells, row by row),
  the cells of a Tet, and the property that two different Tets of \<^verbatim>\<open>allTets\<close> share a
  cell.
\<close>

fun rowCells :: "nat list \<Rightarrow> nat \<Rightarrow> int \<Rightarrow> (nat \<times> int) list" where
  "rowCells [] r c = []"
| "rowCells (x # xs) r c = (if x \<noteq> 0 then (r, c) # rowCells xs r (c + 1) else rowCells xs r (c + 1))"

fun shapeCells :: "matrix \<Rightarrow> nat \<Rightarrow> int \<Rightarrow> (nat \<times> int) list" where
  "shapeCells [] r c = []"
| "shapeCells (xs # rows) r c = rowCells xs r c @ shapeCells rows (r + 1) c"

definition cellsOf :: "Tet \<Rightarrow> (nat \<times> int) list" where
  "cellsOf t = shapeCells (shape t) (row (topLeft t)) (col (topLeft t))"

definition tetsOverlap :: "Game \<Rightarrow> bool" where
  "tetsOverlap g =
    (\<exists>a \<in> set (allTets g). \<exists>b \<in> set (allTets g).
       a \<noteq> b \<and> set (cellsOf (heap g ! a)) \<inter> set (cellsOf (heap g ! b)) \<noteq> {})"

text \<open>
  A game in which every random draw is 0 (every Tet is an I): the first I is moved to the
  right wall, pushed three more times against it, rotated and dropped to the floor; the
  second is moved above it in the same way, pushed three times against the wall and
  rotated. The last \<open>KeyDown\<close> of \<open>pivotScenarioLanded\<close> lands the second Tet.
\<close>

definition pivotScenario :: "command list" where
  "pivotScenario =
    [KeyRight, KeyRight, KeyRight, KeyRight, KeyRight, KeyUp] @ replicate 13 KeyDown @
    [LoopTick, KeyRight, KeyRight] @ replicate 11 KeyDown @
    [KeyRight, KeyRight, KeyRight, KeyUp]"

definition pivotScenarioLanded :: "command list" where
  "pivotScenarioLanded = pivotScenario @ [KeyDown]"

text \<open>
  The side check in the words of the specification: a cell of the shape at the potential
  position violates the check when it is left of the board, right of it, or on an
  occupied cell of \<^verbatim>\<open>landed\<close> (or when \<^verbatim>\<open>landed\<close> has no such row and the read throws);
  \<open>firstSideViolation\<close> is the first such cell in the order of the scan, and
  \<open>sideOutcome\<close> is what the check returns for it.
\<close>

definition sideViolation :: "grid \<Rightarrow> nat \<times> int \<Rightarrow> bool" where
  "sideViolation L rc =
    (snd rc < 0 \<or> BOARD_COL_NUM \<le> snd rc \<or> landedNonZero L (fst rc) (snd rc) \<noteq> Some False)"

definition firstSideViolation :: "matrix \<Rightarrow> point \<Rightarrow> grid \<Rightarrow> (nat \<times> int) option" where
  "firstSideViolation sh p L = find (sideViolation L) (shapeCells sh (row p) (col p))"

definition sideOutcome :: "int option \<Rightarrow> grid \<Rightarrow> Tet \<Rightarrow> (nat \<times> int) option \<Rightarrow> (bool \<times> Tet) option" where
  "sideOutcome direction L t v =
    (case v of
       None \<Rightarrow> Some (False, t)
     | Some (r, c) \<Rightarrow>
         if c < 0 then Some (True, t)
         else if BOARD_COL_NUM \<le> c then Some (True, pivotUp t)
         else (case landedNonZero L r c of
                 None \<Rightarrow> None
               | Some _ \<Rightarrow> Some (True, if direction = Some 1 then pivotUp t else t)))"

text \<open>
  A game from its construction on: the constructor with the random sequence \<open>r\<close>, then
  the commands.
\<close>

definition play :: "(nat \<Rightarrow> nat) \<Rightarrow> command list \<Rightarrow> Game option" where
  "play r cs = (case Game_constructor r of None \<Rightarrow> None | Some g \<Rightarrow> run cs g)"

text \<open>
  States for the examples. \<open>tetAt ty rot r c\<close> is a Tet of type \<open>ty\<close> as the constructor
  and \<open>rot\<close> rotations leave it, at row \<open>r\<close> and column \<open>c\<close>; \<open>gameWith ts cur\<close> is a
  running game whose Tets are \<open>ts\<close>, all in \<^verbatim>\<open>allTets\<close>, with the current Tet \<open>cur\<close> and
  the \<^verbatim>\<open>landed\<close> array marked for update.
\<close>

definition tetAt :: "int \<Rightarrow> nat \<Rightarrow> nat \<Rightarrow> int \<Rightarrow> Tet" where
  "tetAt ty rot r c =
    (case getShapeMatrix rot
            \<lparr>tetType = ty, rotation = rot, pivot = 0, pivotMax = 0,
             topLeft = \<lparr>row = r, col = c\<rparr>, shape = []\<rparr> of
       None \<Rightarrow> blankTet
     | Some (m, t) \<Rightarrow> t\<lparr>shape := m\<rparr>)"

definition gameWith :: "Tet list \<Rightarrow> nat option \<Rightarrow> Game" where
  "gameWith ts cur =
    \<lparr>newTet = False, currentTet = cur, nextTet = None, updateLanded = True,
     allTets = [0 ..< length ts], tetsToRemove = [], gameOver = False, landed = [],
     heap = ts, moveLoops = [], rnd = (\<lambda>_. 0), draws = 0, score = 0, exponentiate = (powr)\<rparr>"

text \<open>
  A game that is about to make a new Tet while a landed I lies in row 0, columns 4 to 7,
  where a new Tet appears.
\<close>

definition spawnBlocked :: Game where
  "spawnBlocked =
    (gameWith [tetAt 0 0 0 4, tetAt 0 0 0 4] None)\<lparr>newTet := True, nextTet := Some 1, allTets := [0]\<rparr>"

text \<open>
  The pivot state of an O as the constructor leaves it: the Tet at reference \<open>i\<close> of a
  store is an O with \<^verbatim>\<open>pivot = 0\<close> and \<^verbatim>\<open>pivotMax = 0\<close>. \<open>squareMoves\<close> are some
  moves and a rotation for the examples.
\<close>

definition oAt :: "nat \<Rightarrow> Tet list \<Rightarrow> bool" where
  "oAt i h = (i < length h \<and> tetType (h ! i) = 3 \<and> pivot (h ! i) = 0 \<and> pivotMax (h ! i) = 0)"

definition squareMoves :: "command list" where
  "squareMoves = [KeyRight, KeyRight, KeyRight, KeyRight, KeyRight, KeyUp, KeyLeft, KeyDown]"

text \<open>
  The Tet that a round of the falling animation skips (the current Tet, unless a new
  Tet is due), and a Tet that cannot move down: its collision test one row below its
  position returns true.
\<close>

definition isActive :: "Game \<Rightarrow> nat \<Rightarrow> bool" where
  "isActive g i = (Some i = currentTet g \<and> \<not> newTet g)"

definition bottomBlocked :: "Game \<Rightarrow> nat \<Rightarrow> bool" where
  "bottomBlocked g i =
    (map_option fst
       (doesTetCollideBot i \<lparr>row = row (topLeft (heap g ! i)) + 1, col = col (topLeft (heap g ! i))\<rparr> g)
     = Some True)"

text \<open>
  A game that fills row 15: an I in columns 0 to 3, an I in columns 4 to 7 and an O
  in columns 8 and 9 (the random sequence makes the third Tet an O). The last \<open>KeyDown\<close>
  lands the O: row 15 is full, both I are removed and the upper half of the O remains,
  one row above the floor. \<open>playRound\<close> plays a game and then runs one round of the
  falling animation.
\<close>

definition rowScenario :: "(nat \<Rightarrow> nat) \<times> command list" where
  "rowScenario =
    ((\<lambda>n. if n = 3 then 3 else 0),
     replicate 4 KeyLeft @ replicate 16 KeyDown @ [LoopTick] @ replicate 16 KeyDown @
     [LoopTick] @ replicate 4 KeyRight @ replicate 15 KeyDown)"

definition playRound :: "(nat \<Rightarrow> nat) \<times> command list \<Rightarrow> command list \<Rightarrow> (Game \<times> nat list) option" where
  "playRound sc extra = Option.bind (play (fst sc) (snd sc @ extra)) settleRound"

text \<open>
  The vocabulary for the fragments of a Tet. An entry of the queue of \<^verbatim>\<open>updateTet\<close> is a
  shape with its \<^verbatim>\<open>topLeft\<close>. \<open>fragmentOK\<close>: the shape has a row and no row of it is all
  zeros. \<open>endRow\<close> is the board row below the last row of an entry, and a queue is
  \<open>separated\<close> when every entry starts below the end row of the one before it, so that
  at least one board row lies between two consecutive entries.
\<close>

definition fragmentOK :: "matrix \<times> point \<Rightarrow> bool" where
  "fragmentOK ob = (fst ob \<noteq> [] \<and> list_all (\<lambda>r. \<not> arrayIsAllZeros r) (fst ob))"

definition endRow :: "matrix \<times> point \<Rightarrow> nat" where
  "endRow ob = row (snd ob) + length (fst ob)"

fun separated :: "(matrix \<times> point) list \<Rightarrow> bool" where
  "separated (a # b # obs) = (endRow a < row (snd b) \<and> separated (b # obs))"
| "separated _ = True"

text \<open>
  The board cells of an entry. A shape is \<open>trimmed\<close> when it has a row, some row starts
  with a positive cell (no leading column is all zeros) and every row is non-empty and
  ends with a non-zero cell.
\<close>

definition obCells :: "matrix \<times> point \<Rightarrow> (nat \<times> int) list" where
  "obCells ob = shapeCells (fst ob) (row (snd ob)) (col (snd ob))"

definition trimmed :: "matrix \<Rightarrow> bool" where
  "trimmed sh = (sh \<noteq> [] \<and> list_ex startsPositive sh \<and> list_all (\<lambda>r. r \<noteq> [] \<and> last r \<noteq> 0) sh)"

text \<open>
  The Tet that \<^verbatim>\<open>updateTet\<close> makes for a fragment \<open>c\<close> of a Tet of type \<open>ty\<close>:
  \<^verbatim>\<open>new Tet(game, -1)\<close>, then the assignments to \<^verbatim>\<open>type\<close>, \<^verbatim>\<open>topLeft\<close> and the shape.
\<close>

definition fragmentTet :: "int \<Rightarrow> matrix \<times> point \<Rightarrow> Tet" where
  "fragmentTet ty c = blankTet\<lparr>tetType := ty, topLeft := snd c, shape := fst c\<rparr>"

text \<open>
  A landed S (type 4), upright, in rows 12 to 14 and columns 3 and 4, after
  \<^verbatim>\<open>alterShape\<close> has overwritten its middle row, board row 13, with zeros.
\<close>

definition splitScenario :: Game where
  "splitScenario =
    gameWith [(tetAt 4 1 12 3)\<lparr>shape := zeroRows [13] 12 (shape (tetAt 4 1 12 3))\<rparr>] None"

text \<open>
  Legality in terms of cells. A cell is illegal when it is left of the board, right of
  it, below it, or on an occupied cell of \<^verbatim>\<open>landed\<close>; a shape at a position is illegal
  when one of its non-zero cells is. \<open>catalogEntry ty rot\<close> is the shape of the catalog
  \<open>matrixMatrix\<close> for a type and a rotation (modulo the number of entries of the type),
  and a Tet has a catalog shape when its shape is an entry of the catalog for its type.
\<close>

definition illegalCell :: "grid \<Rightarrow> nat \<times> int \<Rightarrow> bool" where
  "illegalCell L rc =
    (snd rc < 0 \<or> BOARD_COL_NUM \<le> snd rc \<or> BOARD_ROW_NUM \<le> fst rc \<or>
     landedNonZero L (fst rc) (snd rc) = Some True)"

definition illegalAt :: "grid \<Rightarrow> matrix \<Rightarrow> point \<Rightarrow> bool" where
  "illegalAt L sh p = list_ex (illegalCell L) (shapeCells sh (row p) (col p))"

definition catalogEntry :: "int \<Rightarrow> nat \<Rightarrow> matrix" where
  "catalogEntry ty rot = matrixMatrix ! nat ty ! (rot mod length (matrixMatrix ! nat ty))"

definition catalogShape :: "Tet \<Rightarrow> bool" where
  "catalogShape t =
    (0 \<le> tetType t \<and> tetType t < 7 \<and> shape t \<in> set (matrixMatrix ! nat (tetType t)))"




section \<open>Properties\<close>

subsection \<open>C1: Tets never overlap\<close>

text \<open>
  Claim C1 says that at every reachable state no two live pieces occupy the same cell and
  every occupied cell lies inside the board. The code breaks the first part:
  \<^verbatim>\<open>rotate\<close> tests the rotated shape at \<^verbatim>\<open>topLeft.col\<close> but commits it at
  \<^verbatim>\<open>topLeft.col + pivot\<close> (\<^verbatim>\<open>doesNotTetPivotCollide\<close>, which draws the preview of the
  same rotation, does test at \<^verbatim>\<open>topLeft.col + pivot\<close>). In the game below the second I
  stands on row 11, columns 6 to 9, above the first, which fills column 9 from row 12 to
  row 15; three pushes against the wall give it a pivot of 3, the rotated shape is free
  in column 6, and the rotation puts it into column 9, rows 11 to 14, the current Tet
  over three cells of the landed one. One more step down and it has landed there:
  two landed Tets share the cells (12,9), (13,9) and (14,9).
\<close>

theorem pivoted_rotation_overlaps:
  "map_option (\<lambda>g. (allTets g, currentTet g, cellsOf (heap g ! 0), cellsOf (heap g ! 1), tetsOverlap g))
     (case Game_constructor (\<lambda>_. 0) of None \<Rightarrow> None | Some g \<Rightarrow> run pivotScenario g)
   = Some ([0, 1], Some 1, [(12, 9), (13, 9), (14, 9), (15, 9)],
           [(11, 9), (12, 9), (13, 9), (14, 9)], True) \<and>
   map_option (\<lambda>g. (allTets g, currentTet g, cellsOf (heap g ! 0), cellsOf (heap g ! 1), tetsOverlap g))
     (case Game_constructor (\<lambda>_. 0) of None \<Rightarrow> None | Some g \<Rightarrow> run pivotScenarioLanded g)
   = Some ([0, 1], None, [(12, 9), (13, 9), (14, 9), (15, 9)],
           [(11, 9), (12, 9), (13, 9), (14, 9)], True)"
  by code_simp

subsection \<open>C10: \<^verbatim>\<open>cleanShape\<close> terminates\<close>

text \<open>
  The loop that strips leading columns only returns for a shape that has a row.
\<close>

lemma stripLeadingColumns_nonempty:
  assumes "stripLeadingColumns sh p = Some y"
  shows "sh \<noteq> []"
proof (rule stripLeadingColumns.raw_induct[where P = "\<lambda>sh p y. sh \<noteq> []", OF _ assms])
  fix f :: "matrix \<Rightarrow> point \<Rightarrow> (matrix \<times> point) option" and s q z
  assume ih: "\<And>s q z. f s q = Some z \<Longrightarrow> s \<noteq> []"
    and body: "(if list_ex startsPositive s then Some (s, q)
                else f (map (drop 1) s) (q\<lparr>col := col q + 1\<rparr>)) = Some z"
  show "s \<noteq> []"
  proof (cases "list_ex startsPositive s")
    case True
    then show ?thesis by auto
  next
    case False
    with body have "f (map (drop 1) s) (q\<lparr>col := col q + 1\<rparr>) = Some z" by simp
    from ih[OF this] show ?thesis by auto
  qed
qed

lemma rowCells_append: "rowCells (xs @ ys) r c = rowCells xs r c @ rowCells ys r (c + int (length xs))"
  by (induction xs arbitrary: c) (auto simp: algebra_simps)

lemma rowCells_zeros: "\<forall>x \<in> set xs. x = 0 \<Longrightarrow> rowCells xs r c = []"
  by (induction xs arbitrary: c) auto

lemma rowCells_stripTrailingZeros: "rowCells (stripTrailingZeros xs) r c = rowCells xs r c"
proof -
  let ?P = "\<lambda>x::nat. x = 0"
  have split: "xs = stripTrailingZeros xs @ rev (takeWhile ?P (rev xs))"
    unfolding stripTrailingZeros_def
    by (metis rev_append rev_rev_ident takeWhile_dropWhile_id)
  have z: "\<forall>x \<in> set (rev (takeWhile ?P (rev xs))). x = 0"
    by (auto dest: set_takeWhileD)
  have "rowCells xs r c = rowCells (stripTrailingZeros xs @ rev (takeWhile ?P (rev xs))) r c"
    using split by simp
  also have "\<dots> = rowCells (stripTrailingZeros xs) r c"
    by (simp add: rowCells_append rowCells_zeros[OF z])
  finally show ?thesis by simp
qed

lemma rowCells_drop:
  "\<forall>x \<in> set (take k xs). x = 0 \<Longrightarrow> rowCells (drop k xs) r (c + int k) = rowCells xs r c"
proof (induction xs arbitrary: k c)
  case Nil
  then show ?case by simp
next
  case (Cons x xs)
  show ?case
  proof (cases k)
    case 0
    then show ?thesis by simp
  next
    case (Suc j)
    with Cons.prems have x0: "x = 0" and rest: "\<forall>x \<in> set (take j xs). x = 0" by auto
    from Cons.IH[OF rest, of "c + 1"] Suc x0 show ?thesis by (simp add: algebra_simps)
  qed
qed

lemma shapeCells_clean:
  "\<forall>r \<in> set sh. \<forall>x \<in> set (take k r). x = 0 \<Longrightarrow>
   shapeCells (map (\<lambda>r. stripTrailingZeros (drop k r)) sh) n (c + int k) = shapeCells sh n c"
  by (induction sh arbitrary: n) (auto simp: rowCells_stripTrailingZeros rowCells_drop)


lemma stripLeadingColumns_terminates:
  "sh \<noteq> [] \<Longrightarrow> \<forall>r \<in> set sh. \<exists>x \<in> set r. x \<noteq> 0 \<Longrightarrow> length (hd sh) = n \<Longrightarrow>
   \<exists>k. k \<le> Min (length ` set sh) \<and> (\<forall>r \<in> set sh. \<forall>x \<in> set (take k r). x = 0) \<and>
       stripLeadingColumns sh p = Some (map (drop k) sh, p\<lparr>col := col p + int k\<rparr>)"
proof (induction n arbitrary: sh p rule: less_induct)
  case (less n)
  show ?case
  proof (cases "list_ex startsPositive sh")
    case True
    then have "stripLeadingColumns sh p = Some (map (drop 0) sh, p\<lparr>col := col p + int 0\<rparr>)"
      by (subst stripLeadingColumns.simps) simp
    then show ?thesis by (intro exI[of _ 0]) simp
  next
    case False
    have rows: "r \<noteq> [] \<and> hd r = 0 \<and> (\<exists>x \<in> set (drop 1 r). x \<noteq> 0)" if "r \<in> set sh" for r
    proof -
      from less.prems(2) that obtain x where x: "x \<in> set r" "x \<noteq> 0" by auto
      then obtain y ys where r: "r = y # ys" by (cases r) auto
      from False that have "\<not> startsPositive r" by (auto simp: list_ex_iff)
      with r have y: "y = 0" by (simp add: startsPositive_def)
      with x r have "x \<in> set ys" by auto
      with x r y show ?thesis by auto
    qed
    let ?sh = "map (drop 1) sh" and ?p = "p\<lparr>col := col p + 1\<rparr>"
    from less.prems(1) have ne: "?sh \<noteq> []" by simp
    from rows have nz: "\<forall>r \<in> set ?sh. \<exists>x \<in> set r. x \<noteq> 0" by auto
    from less.prems(1) have "hd sh \<in> set sh" by simp
    from rows[OF this] less.prems(3) have n: "0 < n" by auto
    from less.prems(1,3) have len: "length (hd ?sh) = n - 1" by (simp add: hd_map)
    from less.IH[OF _ ne nz len, of ?p] n obtain k where
      k: "k \<le> Min (length ` set ?sh)" and
      z: "\<forall>r \<in> set ?sh. \<forall>x \<in> set (take k r). x = 0" and
      s: "stripLeadingColumns ?sh ?p = Some (map (drop k) ?sh, ?p\<lparr>col := col ?p + int k\<rparr>)"
      by auto
    have bound: "Suc k \<le> Min (length ` set sh)"
    proof -
      have "Suc k \<le> length r" if r: "r \<in> set sh" for r
      proof -
        from r have "drop 1 r \<in> set ?sh" by auto
        then have "length (drop 1 r) \<in> length ` set ?sh" by (rule imageI)
        then have "Min (length ` set ?sh) \<le> length (drop 1 r)" by (intro Min_le) auto
        with k have "k \<le> length (drop 1 r)" by (rule order_trans)
        with rows[OF r] show ?thesis by (cases r) auto
      qed
      with less.prems(1) show ?thesis by (simp add: Min_ge_iff)
    qed
    have zeros: "\<forall>r \<in> set sh. \<forall>x \<in> set (take (Suc k) r). x = 0"
    proof (intro ballI)
      fix r x assume r: "r \<in> set sh" and x: "x \<in> set (take (Suc k) r)"
      from rows[OF r] obtain ys where ys: "r = 0 # ys" by (cases r) auto
      from r z have "\<forall>x \<in> set (take k (drop 1 r)). x = 0" by auto
      with ys x show "x = 0" by auto
    qed
    have "stripLeadingColumns sh p = stripLeadingColumns ?sh ?p"
      using False by (subst stripLeadingColumns.simps) simp
    with s have "stripLeadingColumns sh p = Some (map (drop (Suc k)) sh, p\<lparr>col := col p + int (Suc k)\<rparr>)"
      by (simp add: comp_def add.commute)
    with bound zeros show ?thesis by blast
  qed
qed

text \<open>
  The shape without rows is outside the domain of \<^verbatim>\<open>cleanShape\<close>: \<^verbatim>\<open>updateTet\<close>, its only
  caller, queues a \<^verbatim>\<open>currShape\<close> of positive length only. On it the first loop would
  never end: no row starts with a positive cell, nothing is removed, and \<^verbatim>\<open>topLeft.col\<close>
  grows for ever.
\<close>

lemma cleanShape_no_rows: "cleanShape ([], \<lparr>row = 0, col = 0\<rparr>) = None"
proof (cases "stripLeadingColumns [] \<lparr>row = 0, col = 0\<rparr>")
  case None
  then show ?thesis by (simp add: cleanShape_def)
next
  case (Some y)
  from stripLeadingColumns_nonempty[OF this] show ?thesis by simp
qed

text \<open>
  Claim C10: for every shape that the fragmentation step emits, a run of at least one
  row in which every row has a non-zero cell, \<^verbatim>\<open>cleanShape\<close> terminates. It removes \<open>k\<close> leading columns, one per
  iteration of the first loop, where \<open>k\<close> is at most the length of the shortest row and
  the removed cells are all zero; then the trailing zeros of every row. \<^verbatim>\<open>topLeft.col\<close>
  has grown by \<open>k\<close>, \<^verbatim>\<open>topLeft.row\<close> is unchanged, and the non-zero cells are at the
  board positions they had.
\<close>

theorem cleanShape_terminates:
  assumes "sh \<noteq> []" and "\<forall>r \<in> set sh. \<exists>x \<in> set r. x \<noteq> 0"
  shows "\<exists>k. k \<le> Min (length ` set sh) \<and>
             (\<forall>r \<in> set sh. \<forall>x \<in> set (take k r). x = 0) \<and>
             cleanShape (sh, p) =
               Some (map (\<lambda>r. stripTrailingZeros (drop k r)) sh, p\<lparr>col := col p + int k\<rparr>) \<and>
             shapeCells (map (\<lambda>r. stripTrailingZeros (drop k r)) sh) (row p) (col p + int k)
               = shapeCells sh (row p) (col p)"
proof -
  from stripLeadingColumns_terminates[OF assms refl, of p] obtain k where
    k: "k \<le> Min (length ` set sh)" and
    z: "\<forall>r \<in> set sh. \<forall>x \<in> set (take k r). x = 0" and
    s: "stripLeadingColumns sh p = Some (map (drop k) sh, p\<lparr>col := col p + int k\<rparr>)"
    by blast
  from s have "cleanShape (sh, p) =
      Some (map (\<lambda>r. stripTrailingZeros (drop k r)) sh, p\<lparr>col := col p + int k\<rparr>)"
    by (simp add: cleanShape_def comp_def)
  with k z shapeCells_clean[OF z] show ?thesis by blast
qed

theorem cleanShape_terminates_witness:
  "\<exists>k \<le> 3.
     cleanShape ([[0, 0, 1], [0, 1, 0]], \<lparr>row = 12, col = 3\<rparr>) =
       Some (map (\<lambda>r. stripTrailingZeros (drop k r)) [[0, 0, 1], [0, 1, 0]],
             \<lparr>row = 12, col = 3 + int k\<rparr>) \<and>
     shapeCells (map (\<lambda>r. stripTrailingZeros (drop k r)) [[0, 0, 1], [0, 1, 0]]) 12 (3 + int k)
       = [(12, 5), (13, 4)]"
proof -
  let ?sh = "[[0, 0, 1], [0, 1, 0]] :: matrix" and ?p = "\<lparr>row = 12, col = 3\<rparr>"
  have h1: "?sh \<noteq> []" by simp
  have h2: "\<forall>r \<in> set ?sh. \<exists>x \<in> set r. x \<noteq> 0" by simp
  from cleanShape_terminates[OF h1 h2, of ?p] obtain k where
    k: "k \<le> Min (length ` set ?sh)" and
    c: "cleanShape (?sh, ?p) =
          Some (map (\<lambda>r. stripTrailingZeros (drop k r)) ?sh, ?p\<lparr>col := col ?p + int k\<rparr>)" and
    s: "shapeCells (map (\<lambda>r. stripTrailingZeros (drop k r)) ?sh) (row ?p) (col ?p + int k)
          = shapeCells ?sh (row ?p) (col ?p)"
    by blast
  from k have "k \<le> 3" by simp
  moreover have "shapeCells ?sh 12 3 = [(12, 5), (13, 4)]" by simp
  ultimately show ?thesis using c s by (intro exI[of _ k]) simp
qed

subsection \<open>Frames of the checks\<close>

lemma getShapeMatrix_frame:
  "getShapeMatrix rot t = Some (m, t1) \<Longrightarrow>
     t1 = t\<lparr>pivotMax := (if tetType t = 0 then 3 else if tetType t = 3 then 0 else 1)\<rparr>"
  unfolding getShapeMatrix_def Let_def by (auto split: if_splits)

lemma doesTetCollideSide_result:
  assumes "doesTetCollideSide this p direction g = Some (b, g')"
  shows "\<exists>L t'. getLanded None g = Some (L, g\<lparr>landed := L, updateLanded := False\<rparr>) \<and>
           sideRows (shape (heap g ! this)) (row p) (col p) direction L (heap g ! this) = Some (b, t') \<and>
           g' = g\<lparr>landed := L, updateLanded := False, heap := (heap g)[this := t']\<rparr>"
proof -
  from assms obtain L g1 where L: "getLanded None g = Some (L, g1)"
    by (auto simp: doesTetCollideSide_def split: option.splits)
  from getLanded_frame[OF L] have g1: "g1 = g\<lparr>landed := L, updateLanded := False\<rparr>" .
  from assms L g1 show ?thesis
    by (auto simp: doesTetCollideSide_def split: option.splits)
qed

lemma sideOutcome_tet:
  "sideOutcome direction L t v = Some (b, t') \<Longrightarrow> (t' = t \<or> t' = pivotUp t) \<and> (\<not> b \<longrightarrow> t' = t)"
  by (auto simp: sideOutcome_def split: option.splits if_splits)

lemma pivotUp_fields:
  "tetType (pivotUp t) = tetType t" "rotation (pivotUp t) = rotation t"
  "pivotMax (pivotUp t) = pivotMax t" "topLeft (pivotUp t) = topLeft t" "shape (pivotUp t) = shape t"
  "pivot (pivotUp t) = pivot t \<or> pivot (pivotUp t) = pivot t + 1"
  by (auto simp: pivotUp_def)

lemma rotate_tet_result:
  assumes rot: "rotate_tet j g = Some (b, g')"
  shows "\<exists>L potShape t1.
           getShapeMatrix (if rotation (heap g ! j) < 3 then rotation (heap g ! j) + 1 else 0)
             (heap g ! j) = Some (potShape, t1) \<and>
           g' = g\<lparr>landed := L, updateLanded := False,
                  heap := (heap g)[j := (if b then t1
                     \<lparr>topLeft := (topLeft t1)\<lparr>col := col (topLeft t1) + int (pivot t1)\<rparr>,
                      pivot := 0,
                      rotation := (if rotation (heap g ! j) < 3 then rotation (heap g ! j) + 1 else 0),
                      shape := potShape\<rparr> else t1)]\<rparr>"
proof -
  let ?t = "heap g ! j"
  let ?potRot = "if rotation ?t < 3 then rotation ?t + 1 else 0"
  from rot obtain L g1 where L: "getLanded None g = Some (L, g1)"
    by (auto simp: rotate_tet_def split: option.splits)
  from getLanded_frame[OF L] have g1: "g1 = g\<lparr>landed := L, updateLanded := False\<rparr>" .
  then have hg: "heap g1 = heap g" by simp
  from rot L hg obtain potShape t1 where
    m: "getShapeMatrix ?potRot ?t = Some (potShape, t1)"
    by (auto simp: rotate_tet_def Let_def split: option.splits cong del: if_weak_cong)
  from rot L hg m have "g' = g1\<lparr>heap := (heap g)[j := (if b then t1
              \<lparr>topLeft := (topLeft t1)\<lparr>col := col (topLeft t1) + int (pivot t1)\<rparr>,
               pivot := 0, rotation := ?potRot, shape := potShape\<rparr> else t1)]\<rparr>"
    by (auto simp: rotate_tet_def Let_def split: option.splits bool.splits cong del: if_weak_cong)
  with g1 m show ?thesis by auto
qed

lemma play_run: "play r [] = Some g \<Longrightarrow> play r cs = Some g' \<Longrightarrow> run cs g = Some g'"
  by (auto simp: play_def split: option.splits)

lemma run_append:
  "run (cs @ ds) g = (case run cs g of None \<Rightarrow> None | Some g1 \<Rightarrow> run ds g1)"
  by (induction cs arbitrary: g) (auto split: option.splits)

subsection \<open>C8: the pivot in the side check\<close>

text \<open>
  The scan of \<^verbatim>\<open>doesTetCollideSide\<close> returns what \<open>sideOutcome\<close> gives for the first
  violating cell.
\<close>

lemma find_append_option:
  "find P (xs @ ys) = (case find P xs of None \<Rightarrow> find P ys | Some x \<Rightarrow> Some x)"
  by (induction xs) auto

lemma sideRow_find:
  "sideRow xs r c direction L t = sideOutcome direction L t (find (sideViolation L) (rowCells xs r c))"
proof (induction xs arbitrary: c)
  case Nil
  show ?case by (simp add: sideOutcome_def)
next
  case (Cons x xs)
  show ?case
  proof (cases "x = 0")
    case True
    with Cons show ?thesis by simp
  next
    case False
    show ?thesis
    proof (cases "sideViolation L (r, c)")
      case True
      with False show ?thesis
        by (auto simp: sideOutcome_def sideViolation_def split: option.splits bool.splits)
    next
      case nv: False
      then have "landedNonZero L r c = Some False" "\<not> c < 0" "\<not> 10 \<le> c"
        by (auto simp: sideViolation_def)
      with False nv Cons show ?thesis by simp
    qed
  qed
qed

lemma sideRows_find:
  "sideRows sh r c direction L t = sideOutcome direction L t (find (sideViolation L) (shapeCells sh r c))"
proof (induction sh arbitrary: r)
  case Nil
  show ?case by (simp add: sideOutcome_def)
next
  case (Cons xs sh)
  show ?case
  proof (cases "find (sideViolation L) (rowCells xs r c)")
    case None
    with Cons show ?thesis by (simp add: sideRow_find find_append_option sideOutcome_def)
  next
    case (Some v)
    then show ?thesis
      by (cases v) (auto simp: sideRow_find find_append_option sideOutcome_def split: option.splits)
  qed
qed

text \<open>
  Claim C8: when the cell that stops the side check is right of the board (column 10 or
  more), \<^verbatim>\<open>pivot\<close> goes up by one whenever \<^verbatim>\<open>rotation\<close> is even and \<^verbatim>\<open>pivot < pivotMax\<close>,
  whatever \<open>direction\<close> the caller passed; when it is a cell inside the board that is
  occupied in \<^verbatim>\<open>landed\<close>, \<^verbatim>\<open>pivot\<close> goes up under the same condition only if the caller
  passed \<open>direction = 1\<close>. In both cases the check returns true and nothing else of the
  Tet changes.
\<close>

theorem doesTetCollideSide_pivot:
  assumes L: "getLanded None g = Some (L, g1)"
    and v: "firstSideViolation (shape (heap g ! this)) p L = Some (r, c)"
    and ref: "this < length (heap g)"
  shows "(BOARD_COL_NUM \<le> c \<longrightarrow>
           (\<exists>g'. doesTetCollideSide this p direction g = Some (True, g') \<and>
                 heap g' ! this = (heap g ! this)
                   \<lparr>pivot := (if pivot (heap g ! this) < pivotMax (heap g ! this) \<and>
                                 even (rotation (heap g ! this))
                              then pivot (heap g ! this) + 1 else pivot (heap g ! this))\<rparr>)) \<and>
         (0 \<le> c \<and> c < BOARD_COL_NUM \<and> landedNonZero L r c = Some True \<longrightarrow>
           (\<exists>g'. doesTetCollideSide this p direction g = Some (True, g') \<and>
                 heap g' ! this = (heap g ! this)
                   \<lparr>pivot := (if direction = Some 1 \<and>
                                 pivot (heap g ! this) < pivotMax (heap g ! this) \<and>
                                 even (rotation (heap g ! this))
                              then pivot (heap g ! this) + 1 else pivot (heap g ! this))\<rparr>))"
proof -
  let ?t = "heap g ! this"
  from getLanded_frame[OF L] have g1: "g1 = g\<lparr>landed := L, updateLanded := False\<rparr>" .
  have scan: "sideRows (shape ?t) (row p) (col p) direction L ?t
                = sideOutcome direction L ?t (Some (r, c))"
    using v by (simp add: sideRows_find firstSideViolation_def)
  have up: "pivotUp ?t = ?t\<lparr>pivot := (if pivot ?t < pivotMax ?t \<and> even (rotation ?t)
                                        then pivot ?t + 1 else pivot ?t)\<rparr>"
    by (simp add: pivotUp_def even_iff_mod_2_eq_zero)
  have same: "?t = ?t\<lparr>pivot := pivot ?t\<rparr>" by simp
  show ?thesis
  proof (intro conjI impI)
    assume "BOARD_COL_NUM \<le> c"
    then have "sideRows (shape ?t) (row p) (col p) direction L ?t = Some (True, pivotUp ?t)"
      using scan by (simp add: sideOutcome_def)
    with L g1 ref up show "\<exists>g'. doesTetCollideSide this p direction g = Some (True, g') \<and>
        heap g' ! this = ?t\<lparr>pivot := (if pivot ?t < pivotMax ?t \<and> even (rotation ?t)
                                        then pivot ?t + 1 else pivot ?t)\<rparr>"
      by (simp add: doesTetCollideSide_def)
  next
    assume a: "0 \<le> c \<and> c < BOARD_COL_NUM \<and> landedNonZero L r c = Some True"
    then have "sideRows (shape ?t) (row p) (col p) direction L ?t
                 = Some (True, if direction = Some 1 then pivotUp ?t else ?t)"
      using scan by (simp add: sideOutcome_def)
    with L g1 ref up same show "\<exists>g'. doesTetCollideSide this p direction g = Some (True, g') \<and>
        heap g' ! this = ?t\<lparr>pivot := (if direction = Some 1 \<and> pivot ?t < pivotMax ?t \<and>
                                           even (rotation ?t)
                                        then pivot ?t + 1 else pivot ?t)\<rparr>"
      by (cases "direction = Some 1") (simp_all add: doesTetCollideSide_def)
  qed
qed

theorem doesTetCollideSide_pivot_witness:
  "(\<exists>g'. doesTetCollideSide 0 \<lparr>row = 0, col = 7\<rparr> None (gameWith [tetAt 0 0 0 6] (Some 0))
           = Some (True, g') \<and> pivot (heap g' ! 0) = 1) \<and>
   (\<exists>g'. doesTetCollideSide 0 \<lparr>row = 15, col = 1\<rparr> (Some 1)
            (gameWith [tetAt 0 0 15 0, tetAt 3 0 14 4] (Some 0))
           = Some (True, g') \<and> pivot (heap g' ! 0) = 1) \<and>
   (\<exists>g'. doesTetCollideSide 0 \<lparr>row = 15, col = 1\<rparr> None
            (gameWith [tetAt 0 0 15 0, tetAt 3 0 14 4] (Some 0))
           = Some (True, g') \<and> pivot (heap g' ! 0) = 0)"
proof -
  let ?g = "gameWith [tetAt 0 0 0 6] (Some 0)" and ?p = "\<lparr>row = 0, col = 7\<rparr>"
  let ?h = "gameWith [tetAt 0 0 15 0, tetAt 3 0 14 4] (Some 0)" and ?q = "\<lparr>row = 15, col = 1\<rparr>"
  have t: "heap ?g ! 0 = \<lparr>tetType = 0, rotation = 0, pivot = 0, pivotMax = 3,
                           topLeft = \<lparr>row = 0, col = 6\<rparr>, shape = [[1, 1, 1, 1]]\<rparr>"
          "heap ?h ! 0 = \<lparr>tetType = 0, rotation = 0, pivot = 0, pivotMax = 3,
                           topLeft = \<lparr>row = 15, col = 0\<rparr>, shape = [[1, 1, 1, 1]]\<rparr>"
    by code_simp+
  have "case getLanded None ?g of None \<Rightarrow> False
        | Some (L, g1) \<Rightarrow> firstSideViolation (shape (heap ?g ! 0)) ?p L = Some (0, 10) \<and>
                          0 < length (heap ?g)"
    by code_simp
  then obtain L g1 where L: "getLanded None ?g = Some (L, g1)"
    and v: "firstSideViolation (shape (heap ?g ! 0)) ?p L = Some (0, 10)"
    and ref: "0 < length (heap ?g)"
    by (auto split: option.splits)
  have a: "\<exists>g'. doesTetCollideSide 0 ?p None ?g = Some (True, g') \<and> pivot (heap g' ! 0) = 1"
    using doesTetCollideSide_pivot[OF L v ref, of None, THEN conjunct1] t by auto
  have "case getLanded None ?h of None \<Rightarrow> False
        | Some (L, g1) \<Rightarrow> firstSideViolation (shape (heap ?h ! 0)) ?q L = Some (15, 4) \<and>
                          0 < length (heap ?h) \<and> landedNonZero L 15 4 = Some True"
    by code_simp
  then obtain M h1 where M: "getLanded None ?h = Some (M, h1)"
    and w: "firstSideViolation (shape (heap ?h ! 0)) ?q M = Some (15, 4)"
    and refh: "0 < length (heap ?h)" and occ: "landedNonZero M 15 4 = Some True"
    by (auto split: option.splits)
  have b: "\<exists>g'. doesTetCollideSide 0 ?q (Some 1) ?h = Some (True, g') \<and> pivot (heap g' ! 0) = 1"
    using doesTetCollideSide_pivot[OF M w refh, of "Some 1", THEN conjunct2] occ t by auto
  have c: "\<exists>g'. doesTetCollideSide 0 ?q None ?h = Some (True, g') \<and> pivot (heap g' ! 0) = 0"
    using doesTetCollideSide_pivot[OF M w refh, of None, THEN conjunct2] occ t by auto
  from a b c show ?thesis by (intro conjI)
qed

subsection \<open>C3: a successful rotation\<close>

text \<open>
  What \<^verbatim>\<open>getShapeMatrix\<close> returns is the entry of the catalog \<open>matrixMatrix\<close> for the
  type and the rotation, the rotation being taken modulo the number of entries of the
  type (4, 2 or 1).
\<close>

lemma getShapeMatrix_table:
  assumes m: "getShapeMatrix rot t = Some (sh, t1)" and r: "rot < 4"
  shows "0 \<le> tetType t \<and> tetType t < 7 \<and>
         sh = matrixMatrix ! nat (tetType t) ! (rot mod length (matrixMatrix ! nat (tetType t)))"
proof -
  from m have ty: "0 \<le> tetType t" "tetType t < 7"
    by (auto simp: getShapeMatrix_def split: if_splits)
  then have "nat (tetType t) \<in> {0, 1, 2, 3, 4, 5, 6}" by auto
  then have "sh = matrixMatrix ! nat (tetType t) ! (rot mod length (matrixMatrix ! nat (tetType t)))"
    using m ty r by (auto simp: getShapeMatrix_def Let_def matrixMatrix_def numeral_2_eq_2)
  with ty show ?thesis by simp
qed

text \<open>
  Claim C3: for a Tet whose \<^verbatim>\<open>rotation\<close> is in 0..3, whenever \<^verbatim>\<open>rotate()\<close> returns true
  the type is one of the seven kinds and the new shape is the entry of the catalog
  \<open>matrixMatrix\<close> for the type and \<open>(rotation + 1) mod 4\<close> (modulo the number of
  entries of the type), which is also what \<^verbatim>\<open>getShapeMatrix\<close> gives; \<^verbatim>\<open>topLeft.col\<close> has
  grown by \<^verbatim>\<open>pivot\<close> (the row is unchanged), \<^verbatim>\<open>pivot\<close> is 0 and \<^verbatim>\<open>rotation\<close> is
  \<open>(rotation + 1) mod 4\<close>.
\<close>

theorem rotate_commits:
  assumes rot: "rotate_tet this g = Some (True, g')"
    and ref: "this < length (heap g)"
    and r3: "rotation (heap g ! this) \<le> 3"
  shows "0 \<le> tetType (heap g ! this) \<and> tetType (heap g ! this) < 7 \<and>
         shape (heap g' ! this)
           = matrixMatrix ! nat (tetType (heap g ! this))
               ! (((rotation (heap g ! this) + 1) mod 4)
                    mod length (matrixMatrix ! nat (tetType (heap g ! this)))) \<and>
         map_option fst (getShapeMatrix ((rotation (heap g ! this) + 1) mod 4) (heap g ! this))
           = Some (shape (heap g' ! this)) \<and>
         topLeft (heap g' ! this)
           = \<lparr>row = row (topLeft (heap g ! this)),
              col = col (topLeft (heap g ! this)) + int (pivot (heap g ! this))\<rparr> \<and>
         pivot (heap g' ! this) = 0 \<and>
         rotation (heap g' ! this) = (rotation (heap g ! this) + 1) mod 4 \<and>
         tetType (heap g' ! this) = tetType (heap g ! this)"
proof -
  let ?t = "heap g ! this"
  let ?potRot = "if rotation ?t < 3 then rotation ?t + 1 else 0"
  from r3 have pr: "?potRot = (rotation ?t + 1) mod 4" by auto
  from rot obtain L g1 where L: "getLanded None g = Some (L, g1)"
    by (auto simp: rotate_tet_def split: option.splits)
  from getLanded_frame[OF L] have g1: "g1 = g\<lparr>landed := L, updateLanded := False\<rparr>" .
  from g1 have hg: "heap g1 = heap g" by simp
  from rot L hg obtain potShape t1 where
    m: "getShapeMatrix ?potRot ?t = Some (potShape, t1)"
    by (auto simp: rotate_tet_def Let_def split: option.splits cong del: if_weak_cong)
  from rot L hg m have
    g': "g' = g1\<lparr>heap := (heap g)[this := t1
              \<lparr>topLeft := (topLeft t1)\<lparr>col := col (topLeft t1) + int (pivot t1)\<rparr>,
               pivot := 0, rotation := ?potRot, shape := potShape\<rparr>]\<rparr>"
    by (auto simp: rotate_tet_def Let_def split: option.splits bool.splits cong del: if_weak_cong)
  from getShapeMatrix_frame[OF m] have t1: "topLeft t1 = topLeft ?t" "pivot t1 = pivot ?t"
    "tetType t1 = tetType ?t" by simp_all
  from m pr have m': "getShapeMatrix ((rotation ?t + 1) mod 4) ?t = Some (potShape, t1)" by simp
  have "(rotation ?t + 1) mod 4 < 4" by simp
  from getShapeMatrix_table[OF m' this] have
    tab: "0 \<le> tetType ?t \<and> tetType ?t < 7 \<and>
          potShape = matrixMatrix ! nat (tetType ?t)
                       ! (((rotation ?t + 1) mod 4) mod length (matrixMatrix ! nat (tetType ?t)))" .
  from g' ref have sh: "shape (heap g' ! this) = potShape" by simp
  from g' ref t1 m pr have rest: "map_option fst (getShapeMatrix ((rotation ?t + 1) mod 4) ?t)
           = Some (shape (heap g' ! this)) \<and>
         topLeft (heap g' ! this)
           = \<lparr>row = row (topLeft ?t), col = col (topLeft ?t) + int (pivot ?t)\<rparr> \<and>
         pivot (heap g' ! this) = 0 \<and>
         rotation (heap g' ! this) = (rotation ?t + 1) mod 4 \<and>
         tetType (heap g' ! this) = tetType ?t" by simp
  from tab sh rest show ?thesis by simp
qed

theorem rotate_commits_witness:
  "(\<exists>g g'. play (\<lambda>_. 0) [KeyRight, KeyRight, KeyRight] = Some g \<and>
          rotate_tet 0 g = Some (True, g') \<and>
          tetType (heap g ! 0) = 0 \<and>
          topLeft (heap g ! 0) = \<lparr>row = 0, col = 6\<rparr> \<and> pivot (heap g ! 0) = 1 \<and>
          rotation (heap g ! 0) = 0 \<and>
          shape (heap g' ! 0) = [[1], [1], [1], [1]] \<and>
          topLeft (heap g' ! 0) = \<lparr>row = 0, col = 7\<rparr> \<and>
          pivot (heap g' ! 0) = 0 \<and> rotation (heap g' ! 0) = 1) \<and>
   (\<exists>g g'. play (\<lambda>_. 1) [] = Some g \<and>
          rotate_tet 0 g = Some (True, g') \<and>
          tetType (heap g ! 0) = 1 \<and> rotation (heap g ! 0) = 0 \<and>
          shape (heap g ! 0) = [[1, 1, 1], [0, 0, 1]] \<and>
          shape (heap g' ! 0) = [[0, 1], [0, 1], [1, 1]] \<and>
          topLeft (heap g' ! 0) = \<lparr>row = 0, col = 4\<rparr> \<and>
          pivot (heap g' ! 0) = 0 \<and> rotation (heap g' ! 0) = 1) \<and>
   (\<exists>g g'. play (\<lambda>_. 5) [KeyUp, KeyUp, KeyUp] = Some g \<and>
          rotate_tet 0 g = Some (True, g') \<and>
          tetType (heap g ! 0) = 5 \<and> rotation (heap g ! 0) = 3 \<and>
          shape (heap g ! 0) = [[1], [1, 1], [1]] \<and>
          shape (heap g' ! 0) = [[1, 1, 1], [0, 1]] \<and>
          topLeft (heap g' ! 0) = \<lparr>row = 0, col = 4\<rparr> \<and>
          pivot (heap g' ! 0) = 0 \<and> rotation (heap g' ! 0) = 0)"
proof (intro conjI)
  have "case play (\<lambda>_. 0) [KeyRight, KeyRight, KeyRight] of
          None \<Rightarrow> False
        | Some g \<Rightarrow>
            (case rotate_tet 0 g of
               None \<Rightarrow> False
             | Some (b, g') \<Rightarrow>
                 b \<and> 0 < length (heap g) \<and> rotation (heap g ! 0) = 0 \<and> tetType (heap g ! 0) = 0 \<and>
                 topLeft (heap g ! 0) = \<lparr>row = 0, col = 6\<rparr> \<and> pivot (heap g ! 0) = 1)"
    by code_simp
  then obtain g g' where
    p: "play (\<lambda>_. 0) [KeyRight, KeyRight, KeyRight] = Some g" and
    r: "rotate_tet 0 g = Some (True, g')" and
    ref: "0 < length (heap g)" and
    f: "rotation (heap g ! 0) = 0" "tetType (heap g ! 0) = 0"
       "topLeft (heap g ! 0) = \<lparr>row = 0, col = 6\<rparr>" "pivot (heap g ! 0) = 1"
    by (auto split: option.splits)
  from f have r3: "rotation (heap g ! 0) \<le> 3" by simp
  have tab: "matrixMatrix ! nat 0 ! (((0 + 1) mod 4) mod length (matrixMatrix ! nat 0)) = [[1], [1], [1], [1]]"
    by code_simp
  from rotate_commits[OF r ref r3] f p r tab
  show "\<exists>g g'. play (\<lambda>_. 0) [KeyRight, KeyRight, KeyRight] = Some g \<and>
          rotate_tet 0 g = Some (True, g') \<and>
          tetType (heap g ! 0) = 0 \<and>
          topLeft (heap g ! 0) = \<lparr>row = 0, col = 6\<rparr> \<and> pivot (heap g ! 0) = 1 \<and>
          rotation (heap g ! 0) = 0 \<and>
          shape (heap g' ! 0) = [[1], [1], [1], [1]] \<and>
          topLeft (heap g' ! 0) = \<lparr>row = 0, col = 7\<rparr> \<and>
          pivot (heap g' ! 0) = 0 \<and> rotation (heap g' ! 0) = 1"
    by auto
next
  have "case play (\<lambda>_. 1) [] of
          None \<Rightarrow> False
        | Some g \<Rightarrow>
            (case rotate_tet 0 g of
               None \<Rightarrow> False
             | Some (b, g') \<Rightarrow>
                 b \<and> 0 < length (heap g) \<and> rotation (heap g ! 0) = 0 \<and> tetType (heap g ! 0) = 1 \<and>
                 shape (heap g ! 0) = [[1, 1, 1], [0, 0, 1]] \<and>
                 topLeft (heap g ! 0) = \<lparr>row = 0, col = 4\<rparr> \<and> pivot (heap g ! 0) = 0)"
    by code_simp
  then obtain g g' where
    p: "play (\<lambda>_. 1) [] = Some g" and
    r: "rotate_tet 0 g = Some (True, g')" and
    ref: "0 < length (heap g)" and
    f: "rotation (heap g ! 0) = 0" "tetType (heap g ! 0) = 1"
       "shape (heap g ! 0) = [[1, 1, 1], [0, 0, 1]]"
       "topLeft (heap g ! 0) = \<lparr>row = 0, col = 4\<rparr>" "pivot (heap g ! 0) = 0"
    by (auto split: option.splits)
  from f have r3: "rotation (heap g ! 0) \<le> 3" by simp
  have tab: "matrixMatrix ! nat 1 ! (((0 + 1) mod 4) mod length (matrixMatrix ! nat 1)) = [[0, 1], [0, 1], [1, 1]]"
    by code_simp
  from rotate_commits[OF r ref r3] f p r tab
  show "\<exists>g g'. play (\<lambda>_. 1) [] = Some g \<and>
          rotate_tet 0 g = Some (True, g') \<and>
          tetType (heap g ! 0) = 1 \<and> rotation (heap g ! 0) = 0 \<and>
          shape (heap g ! 0) = [[1, 1, 1], [0, 0, 1]] \<and>
          shape (heap g' ! 0) = [[0, 1], [0, 1], [1, 1]] \<and>
          topLeft (heap g' ! 0) = \<lparr>row = 0, col = 4\<rparr> \<and>
          pivot (heap g' ! 0) = 0 \<and> rotation (heap g' ! 0) = 1"
    by auto
next
  have "case play (\<lambda>_. 5) [KeyUp, KeyUp, KeyUp] of
          None \<Rightarrow> False
        | Some g \<Rightarrow>
            (case rotate_tet 0 g of
               None \<Rightarrow> False
             | Some (b, g') \<Rightarrow>
                 b \<and> 0 < length (heap g) \<and> rotation (heap g ! 0) = 3 \<and> tetType (heap g ! 0) = 5 \<and>
                 shape (heap g ! 0) = [[1], [1, 1], [1]] \<and>
                 topLeft (heap g ! 0) = \<lparr>row = 0, col = 4\<rparr> \<and> pivot (heap g ! 0) = 0)"
    by code_simp
  then obtain g g' where
    p: "play (\<lambda>_. 5) [KeyUp, KeyUp, KeyUp] = Some g" and
    r: "rotate_tet 0 g = Some (True, g')" and
    ref: "0 < length (heap g)" and
    f: "rotation (heap g ! 0) = 3" "tetType (heap g ! 0) = 5"
       "shape (heap g ! 0) = [[1], [1, 1], [1]]"
       "topLeft (heap g ! 0) = \<lparr>row = 0, col = 4\<rparr>" "pivot (heap g ! 0) = 0"
    by (auto split: option.splits)
  from f have r3: "rotation (heap g ! 0) \<le> 3" by simp
  have tab: "matrixMatrix ! nat 5 ! (((3 + 1) mod 4) mod length (matrixMatrix ! nat 5)) = [[1, 1, 1], [0, 1]]"
    by code_simp
  from rotate_commits[OF r ref r3] f p r tab
  show "\<exists>g g'. play (\<lambda>_. 5) [KeyUp, KeyUp, KeyUp] = Some g \<and>
          rotate_tet 0 g = Some (True, g') \<and>
          tetType (heap g ! 0) = 5 \<and> rotation (heap g ! 0) = 3 \<and>
          shape (heap g ! 0) = [[1], [1, 1], [1]] \<and>
          shape (heap g' ! 0) = [[1, 1, 1], [0, 1]] \<and>
          topLeft (heap g' ! 0) = \<lparr>row = 0, col = 4\<rparr> \<and>
          pivot (heap g' ! 0) = 0 \<and> rotation (heap g' ! 0) = 0"
    by auto
qed

subsection \<open>C5: illegal moves and rotations\<close>

lemma shapeCells_first_column:
  "xs \<in> set sh \<Longrightarrow> xs \<noteq> [] \<Longrightarrow> hd xs \<noteq> 0 \<Longrightarrow> \<exists>r'. (r', c) \<in> set (shapeCells sh r c)"
proof (induction sh arbitrary: r)
  case Nil
  then show ?case by simp
next
  case (Cons ys sh)
  show ?case
  proof (cases "xs = ys")
    case True
    with Cons.prems obtain y rest where "ys = y # rest" "y \<noteq> 0" by (cases ys) auto
    then show ?thesis by auto
  next
    case False
    with Cons.prems have "xs \<in> set sh" by simp
    from Cons.IH[OF this Cons.prems(2,3), of "r + 1"] show ?thesis by auto
  qed
qed

lemma moveLeft_unfold:
  assumes ref: "this < length (heap g)"
  shows "moveLeft this g =
    (case doesTetCollideSide this
            \<lparr>row = row (topLeft (heap g ! this)), col = col (topLeft (heap g ! this)) - 1\<rparr> None
            (g\<lparr>heap := (heap g)[this := (heap g ! this)\<lparr>pivot := 0\<rparr>]\<rparr>) of
       None \<Rightarrow> None
     | Some (True, g1) \<Rightarrow> Some g1
     | Some (False, g1) \<Rightarrow>
         Some (g1\<lparr>heap := (heap g1)[this := (heap g1 ! this)
                 \<lparr>topLeft := \<lparr>row = row (topLeft (heap g ! this)),
                              col = col (topLeft (heap g ! this)) - 1\<rparr>\<rparr>]\<rparr>))"
proof -
  have t0: "heap (g\<lparr>heap := (heap g)[this := (heap g ! this)\<lparr>pivot := 0\<rparr>]\<rparr>) ! this
              = (heap g ! this)\<lparr>pivot := 0\<rparr>"
    using ref by simp
  have sel: "topLeft ((heap g ! this)\<lparr>pivot := 0\<rparr>) = topLeft (heap g ! this)" by simp
  show ?thesis unfolding moveLeft_def Let_def t0 sel ..
qed

lemma moveLeft_result:
  assumes ml: "moveLeft this g = Some g'" and ref: "this < length (heap g)"
  shows "\<exists>b g1. doesTetCollideSide this
             \<lparr>row = row (topLeft (heap g ! this)), col = col (topLeft (heap g ! this)) - 1\<rparr> None
             (g\<lparr>heap := (heap g)[this := (heap g ! this)\<lparr>pivot := 0\<rparr>]\<rparr>) = Some (b, g1) \<and>
           g' = (if b then g1 else g1\<lparr>heap := (heap g1)[this := (heap g1 ! this)
                   \<lparr>topLeft := \<lparr>row = row (topLeft (heap g ! this)),
                                col = col (topLeft (heap g ! this)) - 1\<rparr>\<rparr>]\<rparr>)"
proof -
  let ?g0 = "g\<lparr>heap := (heap g)[this := (heap g ! this)\<lparr>pivot := 0\<rparr>]\<rparr>"
  let ?p = "\<lparr>row = row (topLeft (heap g ! this)), col = col (topLeft (heap g ! this)) - 1\<rparr>"
  from ml obtain b g1 where c: "doesTetCollideSide this ?p None ?g0 = Some (b, g1)"
    unfolding moveLeft_unfold[OF ref] by (cases "doesTetCollideSide this ?p None ?g0") auto
  with ml have "g' = (if b then g1 else g1\<lparr>heap := (heap g1)[this := (heap g1 ! this)\<lparr>topLeft := ?p\<rparr>]\<rparr>)"
    unfolding moveLeft_unfold[OF ref] by (cases b) simp_all
  with c show ?thesis by blast
qed

lemma sideRows_collision_tet:
  assumes "sideRows sh r c direction L t = Some (b, t')"
  shows "tetType t' = tetType t \<and> rotation t' = rotation t \<and> pivotMax t' = pivotMax t \<and>
         topLeft t' = topLeft t \<and> shape t' = shape t \<and>
         (pivot t' = pivot t \<or> pivot t' = pivot t + 1)"
proof -
  from assms have "t' = t \<or> t' = pivotUp t"
    using sideOutcome_tet[of direction L t _ b t'] by (simp add: sideRows_find)
  then show ?thesis using pivotUp_fields[of t] by auto
qed

lemma rotate_fail_frame:
  assumes rot: "rotate_tet this g = Some (False, g')" and ref: "this < length (heap g)"
  shows "topLeft (heap g' ! this) = topLeft (heap g ! this) \<and>
         shape (heap g' ! this) = shape (heap g ! this) \<and>
         rotation (heap g' ! this) = rotation (heap g ! this) \<and>
         pivot (heap g' ! this) = pivot (heap g ! this)"
proof -
  let ?t = "heap g ! this"
  let ?potRot = "if rotation ?t < 3 then rotation ?t + 1 else 0"
  from rot obtain L g1 where L: "getLanded None g = Some (L, g1)"
    by (auto simp: rotate_tet_def split: option.splits)
  from getLanded_frame[OF L] have hg: "heap g1 = heap g" by simp
  from rot L hg obtain potShape t1 where
    m: "getShapeMatrix ?potRot ?t = Some (potShape, t1)"
    by (auto simp: rotate_tet_def Let_def split: option.splits cong del: if_weak_cong)
  from rot L hg m have g': "g' = g1\<lparr>heap := (heap g)[this := t1]\<rparr>"
    by (auto simp: rotate_tet_def Let_def split: option.splits bool.splits cong del: if_weak_cong)
  from getShapeMatrix_frame[OF m] g' ref show ?thesis by simp
qed

lemma moveLeft_fail_frame:
  assumes c: "doesTetCollideSide this
            \<lparr>row = row (topLeft (heap g ! this)), col = col (topLeft (heap g ! this)) - 1\<rparr> None
            (g\<lparr>heap := (heap g)[this := (heap g ! this)\<lparr>pivot := 0\<rparr>]\<rparr>) = Some (True, gl)"
    and ref: "this < length (heap g)"
  shows "moveLeft this g = Some gl \<and>
         topLeft (heap gl ! this) = topLeft (heap g ! this) \<and>
         shape (heap gl ! this) = shape (heap g ! this) \<and>
         rotation (heap gl ! this) = rotation (heap g ! this) \<and>
         pivot (heap gl ! this) \<le> 1"
proof -
  let ?t = "heap g ! this"
  let ?g0 = "g\<lparr>heap := (heap g)[this := ?t\<lparr>pivot := 0\<rparr>]\<rparr>"
  let ?p = "\<lparr>row = row (topLeft ?t), col = col (topLeft ?t) - 1\<rparr>"
  from ref have t0: "heap ?g0 ! this = ?t\<lparr>pivot := 0\<rparr>" by simp
  from c have ml: "moveLeft this g = Some gl" by (simp add: moveLeft_unfold[OF ref])
  from doesTetCollideSide_result[OF c] obtain L t' where
    s: "sideRows (shape (heap ?g0 ! this)) (row ?p) (col ?p) None L (heap ?g0 ! this) = Some (True, t')"
    and gl: "gl = ?g0\<lparr>landed := L, updateLanded := False, heap := (heap ?g0)[this := t']\<rparr>"
    by blast
  from gl ref have t': "heap gl ! this = t'" by simp
  from sideRows_collision_tet[OF s] t0 have
    "topLeft t' = topLeft ?t" "shape t' = shape ?t" "rotation t' = rotation ?t" "pivot t' \<le> 1"
    by auto
  with ml t' show ?thesis by simp
qed

lemma moveRight_fail_frame:
  assumes c: "doesTetCollideSide this
            \<lparr>row = row (topLeft (heap g ! this)), col = col (topLeft (heap g ! this)) + 1\<rparr> (Some 1)
            g = Some (True, gr)"
    and ref: "this < length (heap g)"
  shows "moveRight this g = Some gr \<and>
         topLeft (heap gr ! this) = topLeft (heap g ! this) \<and>
         shape (heap gr ! this) = shape (heap g ! this) \<and>
         rotation (heap gr ! this) = rotation (heap g ! this) \<and>
         (pivot (heap gr ! this) = pivot (heap g ! this) \<or>
          pivot (heap gr ! this) = pivot (heap g ! this) + 1)"
proof -
  let ?t = "heap g ! this"
  let ?p = "\<lparr>row = row (topLeft ?t), col = col (topLeft ?t) + 1\<rparr>"
  from c have mr: "moveRight this g = Some gr" by (simp add: moveRight_def Let_def)
  from doesTetCollideSide_result[OF c] obtain L t' where
    s: "sideRows (shape ?t) (row ?p) (col ?p) (Some 1) L ?t = Some (True, t')"
    and gr: "gr = g\<lparr>landed := L, updateLanded := False, heap := (heap g)[this := t']\<rparr>"
    by blast
  from gr ref have t': "heap gr ! this = t'" by simp
  from sideRows_collision_tet[OF s] mr t' show ?thesis by simp
qed

text \<open>
  The scans in terms of cells: with a \<^verbatim>\<open>landed\<close> array of 16 rows, the scan of
  \<^verbatim>\<open>rotate()\<close> finds a collision exactly when a cell of the potential shape is illegal,
  and the side check finds one whenever a cell of the shape at the potential position is
  illegal and the Tet lies within the rows of the board.
\<close>

lemma getShapeMatrix_catalog:
  assumes "0 \<le> tetType t" "tetType t < 7" "rot < 4"
  shows "getShapeMatrix rot t =
           Some (catalogEntry (tetType t) rot,
                 t\<lparr>pivotMax := (if tetType t = 0 then 3 else if tetType t = 3 then 0 else 1)\<rparr>)"
proof -
  from assms have "nat (tetType t) \<in> {0, 1, 2, 3, 4, 5, 6}" by auto
  then show ?thesis using assms
    by (auto simp: getShapeMatrix_def Let_def matrixMatrix_def catalogEntry_def numeral_2_eq_2)
qed

lemma rotateRow_cells:
  "length L = BOARD_ROW_NUM \<Longrightarrow>
   rotateRow xs r c L = Some (list_ex (illegalCell L) (rowCells xs r c))"
  by (induction xs arbitrary: c)
     (auto simp: illegalCell_def landedNonZero_def split: option.splits bool.splits)

lemma rotateRows_cells:
  "length L = BOARD_ROW_NUM \<Longrightarrow>
   rotateRows sh r c L = Some (list_ex (illegalCell L) (shapeCells sh r c))"
  by (induction sh arbitrary: r) (auto simp: rotateRow_cells split: bool.splits)

lemma shapeCells_rows:
  "(r', c') \<in> set (shapeCells sh r c) \<Longrightarrow> r \<le> r' \<and> r' < r + length sh"
proof (induction sh arbitrary: r)
  case Nil
  then show ?case by simp
next
  case (Cons xs sh)
  have row: "(a, b) \<in> set (rowCells xs r c) \<Longrightarrow> a = r" for a b c
    by (induction xs arbitrary: c) (auto split: if_splits)
  from Cons.prems have "(r', c') \<in> set (rowCells xs r c) \<or> (r', c') \<in> set (shapeCells sh (r + 1) c)"
    by simp
  then show ?case
  proof
    assume "(r', c') \<in> set (rowCells xs r c)"
    from row[OF this] show ?thesis by simp
  next
    assume "(r', c') \<in> set (shapeCells sh (r + 1) c)"
    from Cons.IH[OF this] show ?thesis by simp
  qed
qed

lemma sideRows_illegal:
  assumes rows: "length L = BOARD_ROW_NUM" and fit: "r + length sh \<le> BOARD_ROW_NUM"
    and ill: "list_ex (illegalCell L) (shapeCells sh r c)"
  shows "\<exists>t'. sideRows sh r c direction L t = Some (True, t')"
proof -
  have eq: "sideViolation L rc = illegalCell L rc" if "rc \<in> set (shapeCells sh r c)" for rc
  proof -
    obtain r' c' where rc: "rc = (r', c')" by (cases rc)
    from shapeCells_rows[of r' c' sh r c] that rc fit rows have "r' < length L" by simp
    then show ?thesis using rows
      by (auto simp: rc sideViolation_def illegalCell_def landedNonZero_def)
  qed
  from ill obtain rc where rc: "rc \<in> set (shapeCells sh r c)" "illegalCell L rc"
    by (auto simp: list_ex_iff)
  with eq have "sideViolation L rc" by simp
  with rc(1) have "find (sideViolation L) (shapeCells sh r c) \<noteq> None"
    unfolding find_None_iff by blast
  then obtain v where v: "find (sideViolation L) (shapeCells sh r c) = Some v" by auto
  then have vin: "v \<in> set (shapeCells sh r c)" by (auto simp: find_Some_iff in_set_conv_nth)
  obtain r' c' where vv: "v = (r', c')" by (cases v)
  from shapeCells_rows[of r' c' sh r c] vin vv fit rows have "r' < length L" by simp
  then have "landedNonZero L r' c' \<noteq> None" by (simp add: landedNonZero_def)
  then show ?thesis
    by (auto simp: sideRows_find v vv sideOutcome_def split: option.splits)
qed

lemma stampTets_cong:
  "\<forall>i \<in> set is. shape (h ! i) = shape (h' ! i) \<and> topLeft (h ! i) = topLeft (h' ! i) \<Longrightarrow>
   stampTets h cur tet is L = stampTets h' cur tet is L"
  by (induction "is" arbitrary: L) (auto split: option.splits)

lemma getLanded_pivot:
  assumes "getLanded tet g = Some (L, g1)"
  shows "\<exists>g1'. getLanded tet (g\<lparr>heap := (heap g)[this := (heap g ! this)\<lparr>pivot := v\<rparr>]\<rparr>) = Some (L, g1')"
proof -
  let ?h = "(heap g)[this := (heap g ! this)\<lparr>pivot := v\<rparr>]"
  have same: "shape (?h ! i) = shape (heap g ! i) \<and> topLeft (?h ! i) = topLeft (heap g ! i)" for i
    by (cases "i = this"; cases "this < length (heap g)") (simp_all add: list_update_beyond)
  have "stampTets ?h cur tet' is M = stampTets (heap g) cur tet' is M" for cur tet' "is" M
    by (rule stampTets_cong) (simp add: same)
  with assms show ?thesis
    by (auto simp: getLanded_def Let_def split: if_splits option.splits)
qed

lemma doesTetCollideSide_illegal:
  assumes L: "getLanded None g = Some (L, g1)" and rows: "length L = BOARD_ROW_NUM"
    and fit: "row p + length (shape (heap g ! this)) \<le> BOARD_ROW_NUM"
    and ill: "illegalAt L (shape (heap g ! this)) p"
  shows "\<exists>g'. doesTetCollideSide this p direction g = Some (True, g')"
proof -
  from getLanded_frame[OF L] have hg: "heap g1 = heap g" by simp
  from sideRows_illegal[OF rows fit, of "col p" direction "heap g ! this"] ill
  obtain t' where "sideRows (shape (heap g ! this)) (row p) (col p) direction L (heap g ! this) = Some (True, t')"
    by (auto simp: illegalAt_def)
  with L hg show ?thesis by (simp add: doesTetCollideSide_def)
qed

lemma catalog_first_column:
  assumes "catalogShape t"
  shows "list_ex startsPositive (shape t)"
proof -
  from assms have "nat (tetType t) \<in> {0, 1, 2, 3, 4, 5, 6}" by (auto simp: catalogShape_def)
  with assms show ?thesis
    by (auto simp: catalogShape_def matrixMatrix_def startsPositive_def)
qed

lemma first_column_illegal:
  assumes "list_ex startsPositive sh" and "c < 0"
  shows "illegalAt L sh \<lparr>row = r, col = c\<rparr>"
proof -
  from assms(1) obtain xs where x: "xs \<in> set sh" "startsPositive xs"
    by (auto simp: list_ex_iff)
  from x(2) have "xs \<noteq> []" "hd xs \<noteq> 0"
    by (cases xs, simp_all add: startsPositive_def)+
  with x(1) have xs: "xs \<in> set sh" "xs \<noteq> []" "hd xs \<noteq> 0" by simp_all
  from shapeCells_first_column[OF xs, of c r] obtain r' where "(r', c) \<in> set (shapeCells sh r c)"
    by blast
  moreover from assms(2) have "illegalCell L (r', c)" by (simp add: illegalCell_def)
  ultimately show ?thesis by (auto simp: illegalAt_def list_ex_iff)
qed

lemma rotate_illegal:
  assumes ref: "this < length (heap g)"
    and L: "getLanded None g = Some (L, g1)" and rows: "length L = BOARD_ROW_NUM"
    and r3: "rotation (heap g ! this) \<le> 3"
    and ty: "0 \<le> tetType (heap g ! this)" "tetType (heap g ! this) < 7"
    and ill: "illegalAt L (catalogEntry (tetType (heap g ! this)) ((rotation (heap g ! this) + 1) mod 4))
                (topLeft (heap g ! this))"
  shows "\<exists>g'. rotate_tet this g = Some (False, g')"
proof -
  let ?t = "heap g ! this"
  let ?t1 = "?t\<lparr>pivotMax := (if tetType ?t = 0 then 3 else if tetType ?t = 3 then 0 else 1)\<rparr>"
  let ?E = "catalogEntry (tetType ?t) ((rotation ?t + 1) mod 4)"
  define potRot where "potRot = (if rotation ?t < 3 then rotation ?t + 1 else 0)"
  from r3 have pr: "potRot = (rotation ?t + 1) mod 4" by (auto simp: potRot_def)
  from getLanded_frame[OF L] have hg: "heap g1 = heap g" by simp
  have "(rotation ?t + 1) mod 4 < 4" by simp
  from getShapeMatrix_catalog[OF ty this] pr have m: "getShapeMatrix potRot ?t = Some (?E, ?t1)"
    by simp
  from ill have s: "rotateRows ?E (row (topLeft ?t1)) (col (topLeft ?t1)) L = Some True"
    by (simp add: rotateRows_cells[OF rows] illegalAt_def)
  have "rotate_tet this g = Some (False, g1\<lparr>heap := (heap g1)[this := ?t1]\<rparr>)"
    unfolding rotate_tet_def L option.case prod.case Let_def hg potRot_def[symmetric] m s bool.case
    by (rule refl)
  then show ?thesis by blast
qed

text \<open>
  Claim C5, as stated, says that an illegal move leaves the whole state of the piece
  unchanged, \<^verbatim>\<open>pivot\<close> included. An I in columns 6 to 9 cannot move to the right: the
  third \<open>KeyRight\<close> below leaves its position, shape and rotation as they were, and
  raises its \<^verbatim>\<open>pivot\<close> from 0 to 1.
\<close>

theorem failed_moveRight_changes_pivot:
  "map_option (\<lambda>g. (topLeft (heap g ! 0), shape (heap g ! 0), rotation (heap g ! 0), pivot (heap g ! 0)))
     (play (\<lambda>_. 0) [KeyRight, KeyRight])
     = Some (\<lparr>row = 0, col = 6\<rparr>, [[1, 1, 1, 1]], 0, 0) \<and>
   map_option (\<lambda>g. (topLeft (heap g ! 0), shape (heap g ! 0), rotation (heap g ! 0), pivot (heap g ! 0)))
     (play (\<lambda>_. 0) [KeyRight, KeyRight, KeyRight])
     = Some (\<lparr>row = 0, col = 6\<rparr>, [[1, 1, 1, 1]], 0, 1)"
  by code_simp

text \<open>
  Claim C5, amended. The \<^verbatim>\<open>landed\<close> array has its 16 rows. A rotation is illegal when
  some cell of the rotated shape (the entry of the catalog for the next rotation), at the
  position \<^verbatim>\<open>topLeft\<close> where \<^verbatim>\<open>rotate()\<close> tests it, is outside the board or on an
  occupied cell: \<^verbatim>\<open>rotate()\<close> then returns false and leaves \<^verbatim>\<open>topLeft\<close>, \<^verbatim>\<open>shape\<close>,
  \<^verbatim>\<open>rotation\<close> and \<^verbatim>\<open>pivot\<close> as they were. A move to the left or to the right of a
  Tet within the rows of the board is illegal when some cell of its shape, one column to
  the left or to the right, is outside the board or on an occupied cell: the move then
  returns and leaves \<^verbatim>\<open>topLeft\<close>, \<^verbatim>\<open>shape\<close> and \<^verbatim>\<open>rotation\<close> as they were, but not
  \<^verbatim>\<open>pivot\<close>: \<^verbatim>\<open>moveLeft\<close> has set it to 0 before the check, and the check itself may
  add 1 to it (so after a refused move to the right it is the old value or one more,
  after a refused move to the left it is at most 1). For every Tet in column 0, its shape
  an entry of the catalog for its type or a cleaned fragment, every move to the left is
  refused and leaves \<^verbatim>\<open>topLeft\<close> unchanged.
\<close>

theorem illegal_move_keeps_position:
  assumes ref: "this < length (heap g)"
    and L: "getLanded None g = Some (L, g1)"
    and rows: "length L = BOARD_ROW_NUM"
  shows "(rotation (heap g ! this) \<le> 3 \<and> 0 \<le> tetType (heap g ! this) \<and> tetType (heap g ! this) < 7 \<and>
          illegalAt L (catalogEntry (tetType (heap g ! this)) ((rotation (heap g ! this) + 1) mod 4))
            (topLeft (heap g ! this)) \<longrightarrow>
            (\<exists>g'. rotate_tet this g = Some (False, g') \<and>
                  topLeft (heap g' ! this) = topLeft (heap g ! this) \<and>
                  shape (heap g' ! this) = shape (heap g ! this) \<and>
                  rotation (heap g' ! this) = rotation (heap g ! this) \<and>
                  pivot (heap g' ! this) = pivot (heap g ! this))) \<and>
         (row (topLeft (heap g ! this)) + length (shape (heap g ! this)) \<le> BOARD_ROW_NUM \<and>
          illegalAt L (shape (heap g ! this))
            \<lparr>row = row (topLeft (heap g ! this)), col = col (topLeft (heap g ! this)) - 1\<rparr> \<longrightarrow>
            (\<exists>gl. moveLeft this g = Some gl \<and>
                  topLeft (heap gl ! this) = topLeft (heap g ! this) \<and>
                  shape (heap gl ! this) = shape (heap g ! this) \<and>
                  rotation (heap gl ! this) = rotation (heap g ! this) \<and>
                  pivot (heap gl ! this) \<le> 1)) \<and>
         (row (topLeft (heap g ! this)) + length (shape (heap g ! this)) \<le> BOARD_ROW_NUM \<and>
          illegalAt L (shape (heap g ! this))
            \<lparr>row = row (topLeft (heap g ! this)), col = col (topLeft (heap g ! this)) + 1\<rparr> \<longrightarrow>
            (\<exists>gr. moveRight this g = Some gr \<and>
                  topLeft (heap gr ! this) = topLeft (heap g ! this) \<and>
                  shape (heap gr ! this) = shape (heap g ! this) \<and>
                  rotation (heap gr ! this) = rotation (heap g ! this) \<and>
                  (pivot (heap gr ! this) = pivot (heap g ! this) \<or>
                   pivot (heap gr ! this) = pivot (heap g ! this) + 1))) \<and>
         (row (topLeft (heap g ! this)) + length (shape (heap g ! this)) \<le> BOARD_ROW_NUM \<and>
          col (topLeft (heap g ! this)) = 0 \<and>
          (catalogShape (heap g ! this) \<or> trimmed (shape (heap g ! this))) \<longrightarrow>
            (\<exists>g0. moveLeft this g = Some g0 \<and>
                  topLeft (heap g0 ! this) = topLeft (heap g ! this)))"
proof -
  let ?t = "heap g ! this"
  let ?g0 = "g\<lparr>heap := (heap g)[this := ?t\<lparr>pivot := 0\<rparr>]\<rparr>"
  let ?pl = "\<lparr>row = row (topLeft ?t), col = col (topLeft ?t) - 1\<rparr>"
  let ?pr = "\<lparr>row = row (topLeft ?t), col = col (topLeft ?t) + 1\<rparr>"
  from ref have t0: "heap ?g0 ! this = ?t\<lparr>pivot := 0\<rparr>" by simp
  from getLanded_pivot[OF L, of this 0] obtain g1' where L0: "getLanded None ?g0 = Some (L, g1')" by blast
  have left: "\<exists>gl. moveLeft this g = Some gl \<and>
                  topLeft (heap gl ! this) = topLeft ?t \<and> shape (heap gl ! this) = shape ?t \<and>
                  rotation (heap gl ! this) = rotation ?t \<and> pivot (heap gl ! this) \<le> 1"
    if fit: "row (topLeft ?t) + length (shape ?t) \<le> BOARD_ROW_NUM" and ill: "illegalAt L (shape ?t) ?pl"
  proof -
    from fit t0 have fit0: "row ?pl + length (shape (heap ?g0 ! this)) \<le> BOARD_ROW_NUM" by simp
    from ill t0 have ill0: "illegalAt L (shape (heap ?g0 ! this)) ?pl" by simp
    from doesTetCollideSide_illegal[OF L0 rows fit0 ill0, of None] obtain gl where
      "doesTetCollideSide this ?pl None ?g0 = Some (True, gl)" by blast
    from moveLeft_fail_frame[OF this ref] show ?thesis by blast
  qed
  have a: "rotation ?t \<le> 3 \<and> 0 \<le> tetType ?t \<and> tetType ?t < 7 \<and>
          illegalAt L (catalogEntry (tetType ?t) ((rotation ?t + 1) mod 4)) (topLeft ?t) \<longrightarrow>
            (\<exists>g'. rotate_tet this g = Some (False, g') \<and>
                  topLeft (heap g' ! this) = topLeft ?t \<and> shape (heap g' ! this) = shape ?t \<and>
                  rotation (heap g' ! this) = rotation ?t \<and> pivot (heap g' ! this) = pivot ?t)"
  proof (intro impI, elim conjE)
    assume "rotation ?t \<le> 3" "0 \<le> tetType ?t" "tetType ?t < 7"
      "illegalAt L (catalogEntry (tetType ?t) ((rotation ?t + 1) mod 4)) (topLeft ?t)"
    from rotate_illegal[OF ref L rows this] obtain g' where r: "rotate_tet this g = Some (False, g')"
      by blast
    from rotate_fail_frame[OF r ref] r show "\<exists>g'. rotate_tet this g = Some (False, g') \<and>
                  topLeft (heap g' ! this) = topLeft ?t \<and> shape (heap g' ! this) = shape ?t \<and>
                  rotation (heap g' ! this) = rotation ?t \<and> pivot (heap g' ! this) = pivot ?t"
      by blast
  qed
  have b: "row (topLeft ?t) + length (shape ?t) \<le> BOARD_ROW_NUM \<and> illegalAt L (shape ?t) ?pl \<longrightarrow>
            (\<exists>gl. moveLeft this g = Some gl \<and>
                  topLeft (heap gl ! this) = topLeft ?t \<and> shape (heap gl ! this) = shape ?t \<and>
                  rotation (heap gl ! this) = rotation ?t \<and> pivot (heap gl ! this) \<le> 1)"
    using left by blast
  have c: "row (topLeft ?t) + length (shape ?t) \<le> BOARD_ROW_NUM \<and> illegalAt L (shape ?t) ?pr \<longrightarrow>
            (\<exists>gr. moveRight this g = Some gr \<and>
                  topLeft (heap gr ! this) = topLeft ?t \<and> shape (heap gr ! this) = shape ?t \<and>
                  rotation (heap gr ! this) = rotation ?t \<and>
                  (pivot (heap gr ! this) = pivot ?t \<or> pivot (heap gr ! this) = pivot ?t + 1))"
  proof (intro impI, elim conjE)
    assume fit: "row (topLeft ?t) + length (shape ?t) \<le> BOARD_ROW_NUM" and ill: "illegalAt L (shape ?t) ?pr"
    from fit have fit': "row ?pr + length (shape ?t) \<le> BOARD_ROW_NUM" by simp
    from doesTetCollideSide_illegal[OF L rows fit' ill, of "Some 1"] obtain gr where
      "doesTetCollideSide this ?pr (Some 1) g = Some (True, gr)" by blast
    from moveRight_fail_frame[OF this ref] show "\<exists>gr. moveRight this g = Some gr \<and>
                  topLeft (heap gr ! this) = topLeft ?t \<and> shape (heap gr ! this) = shape ?t \<and>
                  rotation (heap gr ! this) = rotation ?t \<and>
                  (pivot (heap gr ! this) = pivot ?t \<or> pivot (heap gr ! this) = pivot ?t + 1)"
      by blast
  qed
  have d: "row (topLeft ?t) + length (shape ?t) \<le> BOARD_ROW_NUM \<and> col (topLeft ?t) = 0 \<and>
          (catalogShape ?t \<or> trimmed (shape ?t)) \<longrightarrow>
            (\<exists>g0. moveLeft this g = Some g0 \<and> topLeft (heap g0 ! this) = topLeft ?t)"
  proof (intro impI, elim conjE)
    assume fit: "row (topLeft ?t) + length (shape ?t) \<le> BOARD_ROW_NUM"
      and c0: "col (topLeft ?t) = 0" and sh: "catalogShape ?t \<or> trimmed (shape ?t)"
    from sh have "list_ex startsPositive (shape ?t)"
      by (auto simp: trimmed_def dest: catalog_first_column)
    from first_column_illegal[OF this, of "col (topLeft ?t) - 1" L "row (topLeft ?t)"] c0
    have "illegalAt L (shape ?t) ?pl" by simp
    from left[OF fit this] show "\<exists>g0. moveLeft this g = Some g0 \<and> topLeft (heap g0 ! this) = topLeft ?t"
      by blast
  qed
  from a b c d show ?thesis by (intro conjI)
qed

theorem illegal_move_keeps_position_witness:
  "(\<exists>g'. rotate_tet 0 (gameWith [tetAt 0 0 10 4, tetAt 0 0 11 4] (Some 0)) = Some (False, g') \<and>
         topLeft (heap g' ! 0) = \<lparr>row = 10, col = 4\<rparr> \<and> shape (heap g' ! 0) = [[1, 1, 1, 1]] \<and>
         rotation (heap g' ! 0) = 0 \<and> pivot (heap g' ! 0) = 0) \<and>
   (\<exists>gl. moveLeft 0 (gameWith [tetAt 3 0 14 4, tetAt 0 0 14 0] (Some 0)) = Some gl \<and>
         topLeft (heap gl ! 0) = \<lparr>row = 14, col = 4\<rparr> \<and> shape (heap gl ! 0) = [[1, 1], [1, 1]] \<and>
         rotation (heap gl ! 0) = 0 \<and> pivot (heap gl ! 0) \<le> 1) \<and>
   (\<exists>gr. moveRight 0 (gameWith [tetAt 0 0 0 6] (Some 0)) = Some gr \<and>
         topLeft (heap gr ! 0) = \<lparr>row = 0, col = 6\<rparr> \<and> shape (heap gr ! 0) = [[1, 1, 1, 1]] \<and>
         rotation (heap gr ! 0) = 0 \<and> pivot (heap gr ! 0) \<le> 1) \<and>
   (\<exists>g0. moveLeft 0 (gameWith [tetAt 4 0 3 0] (Some 0)) = Some g0 \<and>
         topLeft (heap g0 ! 0) = \<lparr>row = 3, col = 0\<rparr>)"
proof (intro conjI)
  let ?g = "gameWith [tetAt 0 0 10 4, tetAt 0 0 11 4] (Some 0)"
  have "case getLanded None ?g of None \<Rightarrow> False
        | Some (L, g1) \<Rightarrow> length L = BOARD_ROW_NUM \<and> 0 < length (heap ?g) \<and>
            rotation (heap ?g ! 0) \<le> 3 \<and> 0 \<le> tetType (heap ?g ! 0) \<and> tetType (heap ?g ! 0) < 7 \<and>
            illegalAt L (catalogEntry (tetType (heap ?g ! 0)) ((rotation (heap ?g ! 0) + 1) mod 4))
              (topLeft (heap ?g ! 0)) \<and>
            topLeft (heap ?g ! 0) = \<lparr>row = 10, col = 4\<rparr> \<and> shape (heap ?g ! 0) = [[1, 1, 1, 1]] \<and>
            rotation (heap ?g ! 0) = 0 \<and> pivot (heap ?g ! 0) = 0"
    by code_simp
  then obtain L g1 where L: "getLanded None ?g = Some (L, g1)" and rows: "length L = BOARD_ROW_NUM"
    and ref: "0 < length (heap ?g)"
    and h: "rotation (heap ?g ! 0) \<le> 3 \<and> 0 \<le> tetType (heap ?g ! 0) \<and> tetType (heap ?g ! 0) < 7 \<and>
            illegalAt L (catalogEntry (tetType (heap ?g ! 0)) ((rotation (heap ?g ! 0) + 1) mod 4))
              (topLeft (heap ?g ! 0))"
    and f: "topLeft (heap ?g ! 0) = \<lparr>row = 10, col = 4\<rparr>" "shape (heap ?g ! 0) = [[1, 1, 1, 1]]"
           "rotation (heap ?g ! 0) = 0" "pivot (heap ?g ! 0) = 0"
    by (auto split: option.splits)
  from illegal_move_keeps_position[OF ref L rows, THEN conjunct1, rule_format, OF h] f
  show "\<exists>g'. rotate_tet 0 ?g = Some (False, g') \<and>
         topLeft (heap g' ! 0) = \<lparr>row = 10, col = 4\<rparr> \<and> shape (heap g' ! 0) = [[1, 1, 1, 1]] \<and>
         rotation (heap g' ! 0) = 0 \<and> pivot (heap g' ! 0) = 0"
    by simp
next
  let ?g = "gameWith [tetAt 3 0 14 4, tetAt 0 0 14 0] (Some 0)"
  have "case getLanded None ?g of None \<Rightarrow> False
        | Some (L, g1) \<Rightarrow> length L = BOARD_ROW_NUM \<and> 0 < length (heap ?g) \<and>
            row (topLeft (heap ?g ! 0)) + length (shape (heap ?g ! 0)) \<le> BOARD_ROW_NUM \<and>
            illegalAt L (shape (heap ?g ! 0))
              \<lparr>row = row (topLeft (heap ?g ! 0)), col = col (topLeft (heap ?g ! 0)) - 1\<rparr> \<and>
            topLeft (heap ?g ! 0) = \<lparr>row = 14, col = 4\<rparr> \<and> shape (heap ?g ! 0) = [[1, 1], [1, 1]] \<and>
            rotation (heap ?g ! 0) = 0"
    by code_simp
  then obtain L g1 where L: "getLanded None ?g = Some (L, g1)" and rows: "length L = BOARD_ROW_NUM"
    and ref: "0 < length (heap ?g)"
    and h: "row (topLeft (heap ?g ! 0)) + length (shape (heap ?g ! 0)) \<le> BOARD_ROW_NUM \<and>
            illegalAt L (shape (heap ?g ! 0))
              \<lparr>row = row (topLeft (heap ?g ! 0)), col = col (topLeft (heap ?g ! 0)) - 1\<rparr>"
    and f: "topLeft (heap ?g ! 0) = \<lparr>row = 14, col = 4\<rparr>" "shape (heap ?g ! 0) = [[1, 1], [1, 1]]"
           "rotation (heap ?g ! 0) = 0"
    by (auto split: option.splits)
  from illegal_move_keeps_position[OF ref L rows, THEN conjunct2, THEN conjunct1, rule_format, OF h] f
  show "\<exists>gl. moveLeft 0 ?g = Some gl \<and>
         topLeft (heap gl ! 0) = \<lparr>row = 14, col = 4\<rparr> \<and> shape (heap gl ! 0) = [[1, 1], [1, 1]] \<and>
         rotation (heap gl ! 0) = 0 \<and> pivot (heap gl ! 0) \<le> 1"
    by simp
next
  let ?g = "gameWith [tetAt 0 0 0 6] (Some 0)"
  have "case getLanded None ?g of None \<Rightarrow> False
        | Some (L, g1) \<Rightarrow> length L = BOARD_ROW_NUM \<and> 0 < length (heap ?g) \<and>
            row (topLeft (heap ?g ! 0)) + length (shape (heap ?g ! 0)) \<le> BOARD_ROW_NUM \<and>
            illegalAt L (shape (heap ?g ! 0))
              \<lparr>row = row (topLeft (heap ?g ! 0)), col = col (topLeft (heap ?g ! 0)) + 1\<rparr> \<and>
            topLeft (heap ?g ! 0) = \<lparr>row = 0, col = 6\<rparr> \<and> shape (heap ?g ! 0) = [[1, 1, 1, 1]] \<and>
            rotation (heap ?g ! 0) = 0 \<and> pivot (heap ?g ! 0) = 0"
    by code_simp
  then obtain L g1 where L: "getLanded None ?g = Some (L, g1)" and rows: "length L = BOARD_ROW_NUM"
    and ref: "0 < length (heap ?g)"
    and h: "row (topLeft (heap ?g ! 0)) + length (shape (heap ?g ! 0)) \<le> BOARD_ROW_NUM \<and>
            illegalAt L (shape (heap ?g ! 0))
              \<lparr>row = row (topLeft (heap ?g ! 0)), col = col (topLeft (heap ?g ! 0)) + 1\<rparr>"
    and f: "topLeft (heap ?g ! 0) = \<lparr>row = 0, col = 6\<rparr>" "shape (heap ?g ! 0) = [[1, 1, 1, 1]]"
           "rotation (heap ?g ! 0) = 0" "pivot (heap ?g ! 0) = 0"
    by (auto split: option.splits)
  from illegal_move_keeps_position[OF ref L rows, THEN conjunct2, THEN conjunct2, THEN conjunct1,
      rule_format, OF h] f
  show "\<exists>gr. moveRight 0 ?g = Some gr \<and>
         topLeft (heap gr ! 0) = \<lparr>row = 0, col = 6\<rparr> \<and> shape (heap gr ! 0) = [[1, 1, 1, 1]] \<and>
         rotation (heap gr ! 0) = 0 \<and> pivot (heap gr ! 0) \<le> 1"
    by auto
next
  let ?g = "gameWith [tetAt 4 0 3 0] (Some 0)"
  have "case getLanded None ?g of None \<Rightarrow> False
        | Some (L, g1) \<Rightarrow> length L = BOARD_ROW_NUM \<and> 0 < length (heap ?g) \<and>
            row (topLeft (heap ?g ! 0)) + length (shape (heap ?g ! 0)) \<le> BOARD_ROW_NUM \<and>
            col (topLeft (heap ?g ! 0)) = 0 \<and> catalogShape (heap ?g ! 0) \<and>
            topLeft (heap ?g ! 0) = \<lparr>row = 3, col = 0\<rparr>"
    by code_simp
  then obtain L g1 where L: "getLanded None ?g = Some (L, g1)" and rows: "length L = BOARD_ROW_NUM"
    and ref: "0 < length (heap ?g)"
    and h: "row (topLeft (heap ?g ! 0)) + length (shape (heap ?g ! 0)) \<le> BOARD_ROW_NUM \<and>
            col (topLeft (heap ?g ! 0)) = 0 \<and>
            (catalogShape (heap ?g ! 0) \<or> trimmed (shape (heap ?g ! 0)))"
    and f: "topLeft (heap ?g ! 0) = \<lparr>row = 3, col = 0\<rparr>"
    by (auto split: option.splits)
  from illegal_move_keeps_position[OF ref L rows, THEN conjunct2, THEN conjunct2, THEN conjunct2,
      rule_format, OF h] f
  show "\<exists>g0. moveLeft 0 ?g = Some g0 \<and> topLeft (heap g0 ! 0) = \<lparr>row = 3, col = 0\<rparr>"
    by simp
qed

subsection \<open>C6: a new Tet that collides ends the game\<close>

lemma Tet_constructor_frame:
  assumes "Tet_constructor ty g = Some (n, g')"
  shows "n = length (heap g) \<and> allTets g' = allTets g \<and> moveLoops g' = moveLoops g \<and>
         gameOver g' = gameOver g \<and> newTet g' = newTet g \<and> currentTet g' = currentTet g \<and>
         nextTet g' = nextTet g \<and> (\<exists>t. heap g' = heap g @ [t])"
  using assms unfolding Tet_constructor_def Let_def random7_def
  by (auto split: if_splits option.splits prod.splits)

lemma firstNextTet_frame:
  assumes "firstNextTet g = Some g1"
  shows "allTets g1 = allTets g \<and> moveLoops g1 = moveLoops g \<and> gameOver g1 = gameOver g \<and>
         (\<exists>ts. heap g1 = heap g @ ts)"
  using assms unfolding firstNextTet_def Let_def random7_def
  by (auto split: if_splits option.splits prod.splits dest!: Tet_constructor_frame)

lemma buildTets_frame:
  assumes "buildTets g = Some g1"
  shows "allTets g1 = allTets g \<and> moveLoops g1 = moveLoops g \<and> gameOver g1 = gameOver g \<and>
         (\<exists>ts. heap g1 = heap g @ ts)"
  using assms unfolding buildTets_def Let_def
  by (auto split: if_splits option.splits prod.splits dest!: Tet_constructor_frame)

lemma chooseTets_frame:
  assumes "chooseTets g = Some g4"
  shows "allTets g4 = allTets g \<and> moveLoops g4 = moveLoops g \<and> gameOver g4 = gameOver g \<and>
         (\<exists>ts. heap g4 = heap g @ ts)"
proof -
  from assms obtain g1 where a: "firstNextTet g = Some g1" and b: "buildTets g1 = Some g4"
    by (auto simp: chooseTets_def split: option.splits)
  from firstNextTet_frame[OF a] buildTets_frame[OF b] show ?thesis by auto
qed

text \<open>
  Claim C6: when the Tet that \<^verbatim>\<open>createTet\<close> has made current collides at its own
  position (the collision test of \<^verbatim>\<open>createTet\<close> returns true), the game is over: the
  colliding Tet is kept as \<^verbatim>\<open>nextTet\<close> (and is still \<^verbatim>\<open>currentTet\<close>), \<^verbatim>\<open>newTet\<close> is
  set, \<^verbatim>\<open>allTets\<close> is what it was, and so is every Tet that existed before the call.
\<close>

theorem createTet_game_over:
  assumes ch: "chooseTets g = Some g4"
    and cur: "currentTet g4 = Some c"
    and col: "doesTetCollideBot c (topLeft (heap g4 ! c)) g4 = Some (True, g5)"
  shows "\<exists>g'. createTet g = Some g' \<and> gameOver g' \<and> newTet g' \<and>
              nextTet g' = Some c \<and> currentTet g' = Some c \<and>
              allTets g' = allTets g \<and> moveLoops g' = moveLoops g \<and>
              (\<forall>i < length (heap g). heap g' ! i = heap g ! i)"
proof -
  from doesTetCollideBot_frame[OF col] obtain L where
    g5: "g5 = g4\<lparr>landed := L, updateLanded := False\<rparr>" by blast
  from ch cur col have c': "createTet g = Some (g5\<lparr>nextTet := currentTet g5, gameOver := True, newTet := True\<rparr>)"
    by (simp add: createTet_def)
  from chooseTets_frame[OF ch] obtain ts where
    f: "allTets g4 = allTets g" "moveLoops g4 = moveLoops g" "heap g4 = heap g @ ts" by blast
  from c' g5 cur f show ?thesis by (simp add: nth_append)
qed

theorem createTet_game_over_witness:
  "\<exists>g'. createTet spawnBlocked = Some g' \<and> gameOver g' \<and> newTet g' \<and>
        nextTet g' = Some 1 \<and> currentTet g' = Some 1 \<and> allTets g' = [0] \<and>
        heap g' ! 0 = tetAt 0 0 0 4 \<and> heap g' ! 1 = tetAt 0 0 0 4"
proof -
  have "case chooseTets spawnBlocked of None \<Rightarrow> False
        | Some g4 \<Rightarrow> currentTet g4 = Some 1 \<and>
            (case doesTetCollideBot 1 (topLeft (heap g4 ! 1)) g4 of None \<Rightarrow> False
             | Some (b, g5) \<Rightarrow> b)"
    by code_simp
  then obtain g4 g5 where ch: "chooseTets spawnBlocked = Some g4" and cur: "currentTet g4 = Some 1"
    and col: "doesTetCollideBot 1 (topLeft (heap g4 ! 1)) g4 = Some (True, g5)"
    by (auto split: option.splits)
  have s: "allTets spawnBlocked = [0]" "length (heap spawnBlocked) = 2"
    "heap spawnBlocked ! 0 = tetAt 0 0 0 4" "heap spawnBlocked ! 1 = tetAt 0 0 0 4"
    by (simp_all add: spawnBlocked_def gameWith_def)
  from createTet_game_over[OF ch cur col] s show ?thesis by auto
qed

subsection \<open>C9: the O\<close>

text \<open>
  Every operation of the game keeps the pivot state of an O: the side check only raises
  \<^verbatim>\<open>pivot\<close> below \<^verbatim>\<open>pivotMax\<close>, \<^verbatim>\<open>getShapeMatrix\<close> sets \<^verbatim>\<open>pivotMax\<close> of an O to 0,
  and everything else writes positions and shapes, or makes new Tets.
\<close>

lemma oAt_update:
  "oAt i h \<Longrightarrow> (j = i \<Longrightarrow> tetType t = 3 \<and> pivot t = 0 \<and> pivotMax t = 0) \<Longrightarrow> oAt i (h[j := t])"
  by (cases "j = i") (auto simp: oAt_def)

lemma oAt_append: "oAt i h \<Longrightarrow> oAt i (h @ ts)"
  by (auto simp: oAt_def nth_append)

lemma oAt_getLanded: "oAt i (heap g) \<Longrightarrow> getLanded tet g = Some (L, g') \<Longrightarrow> oAt i (heap g')"
  by (drule getLanded_frame) simp

lemma oAt_doesTetCollideBot: "oAt i (heap g) \<Longrightarrow> doesTetCollideBot j p g = Some (b, g') \<Longrightarrow> oAt i (heap g')"
  by (drule doesTetCollideBot_frame) auto

lemma oAt_doesTetCollideSide:
  assumes o: "oAt i (heap g)" and c: "doesTetCollideSide j p d g = Some (b, g')"
  shows "oAt i (heap g')"
proof -
  from doesTetCollideSide_result[OF c] obtain L t' where
    s: "sideRows (shape (heap g ! j)) (row p) (col p) d L (heap g ! j) = Some (b, t')" and
    g': "g' = g\<lparr>landed := L, updateLanded := False, heap := (heap g)[j := t']\<rparr>" by blast
  from s have t': "t' = heap g ! j \<or> t' = pivotUp (heap g ! j)"
    using sideOutcome_tet[of d L "heap g ! j" _ b t'] by (simp add: sideRows_find)
  have "tetType t' = 3 \<and> pivot t' = 0 \<and> pivotMax t' = 0" if "j = i"
    using that o t' by (auto simp: oAt_def pivotUp_def)
  from oAt_update[OF o this] have "oAt i ((heap g)[j := t'])" by simp
  with g' show ?thesis by simp
qed

lemma oAt_moveLeft:
  assumes o: "oAt i (heap g)" and m: "moveLeft j g = Some g'"
  shows "oAt i (heap g')"
proof -
  let ?g0 = "g\<lparr>heap := (heap g)[j := (heap g ! j)\<lparr>pivot := 0\<rparr>]\<rparr>"
  let ?p = "\<lparr>row = row (topLeft (heap ?g0 ! j)), col = col (topLeft (heap ?g0 ! j)) - 1\<rparr>"
  have "oAt i ((heap g)[j := (heap g ! j)\<lparr>pivot := 0\<rparr>])"
    using o by (intro oAt_update) (auto simp: oAt_def)
  then have o0: "oAt i (heap ?g0)" by simp
  from m obtain b g1 where c: "doesTetCollideSide j ?p None ?g0 = Some (b, g1)"
    by (cases "doesTetCollideSide j ?p None ?g0") (auto simp: moveLeft_def Let_def)
  from oAt_doesTetCollideSide[OF o0 c] have o1: "oAt i (heap g1)" .
  show ?thesis
  proof (cases b)
    case True
    with m c have "g' = g1" by (simp add: moveLeft_def Let_def)
    with o1 show ?thesis by simp
  next
    case False
    with m c have "g' = g1\<lparr>heap := (heap g1)[j := (heap g1 ! j)\<lparr>topLeft := ?p\<rparr>]\<rparr>"
      by (simp add: moveLeft_def Let_def)
    moreover have "oAt i ((heap g1)[j := (heap g1 ! j)\<lparr>topLeft := ?p\<rparr>])"
      using o1 by (intro oAt_update) (auto simp: oAt_def)
    ultimately show ?thesis by simp
  qed
qed

lemma oAt_moveRight:
  assumes o: "oAt i (heap g)" and m: "moveRight j g = Some g'"
  shows "oAt i (heap g')"
proof -
  let ?p = "\<lparr>row = row (topLeft (heap g ! j)), col = col (topLeft (heap g ! j)) + 1\<rparr>"
  from m obtain b g1 where c: "doesTetCollideSide j ?p (Some 1) g = Some (b, g1)"
    by (cases "doesTetCollideSide j ?p (Some 1) g") (auto simp: moveRight_def Let_def)
  from oAt_doesTetCollideSide[OF o c] have o1: "oAt i (heap g1)" .
  show ?thesis
  proof (cases b)
    case True
    with m c have "g' = g1" by (simp add: moveRight_def Let_def)
    with o1 show ?thesis by simp
  next
    case False
    with m c have "g' = g1\<lparr>heap := (heap g1)[j := (heap g1 ! j)\<lparr>topLeft := ?p\<rparr>]\<rparr>"
      by (simp add: moveRight_def Let_def)
    moreover have "oAt i ((heap g1)[j := (heap g1 ! j)\<lparr>topLeft := ?p\<rparr>])"
      using o1 by (intro oAt_update) (auto simp: oAt_def)
    ultimately show ?thesis by simp
  qed
qed

lemma oAt_rotate:
  assumes o: "oAt i (heap g)" and r: "rotate_tet j g = Some (b, g')"
  shows "oAt i (heap g')"
proof -
  from rotate_tet_result[OF r] obtain L potShape t1 t2 where
    m: "getShapeMatrix (if rotation (heap g ! j) < 3 then rotation (heap g ! j) + 1 else 0)
             (heap g ! j) = Some (potShape, t1)" and
    t2: "t2 = t1 \<or> t2 = t1\<lparr>topLeft := (topLeft t1)\<lparr>col := col (topLeft t1) + int (pivot t1)\<rparr>,
                      pivot := 0,
                      rotation := (if rotation (heap g ! j) < 3 then rotation (heap g ! j) + 1 else 0),
                      shape := potShape\<rparr>" and
    g': "g' = g\<lparr>landed := L, updateLanded := False, heap := (heap g)[j := t2]\<rparr>"
    by (cases b) auto
  have "tetType t2 = 3 \<and> pivot t2 = 0 \<and> pivotMax t2 = 0" if "j = i"
    using that o t2 getShapeMatrix_frame[OF m] by (auto simp: oAt_def)
  from oAt_update[OF o this] g' show ?thesis by simp
qed


lemma oAt_Tet_constructor:
  "oAt i (heap g) \<Longrightarrow> Tet_constructor ty g = Some (n, g') \<Longrightarrow> oAt i (heap g')"
  by (drule Tet_constructor_frame) (auto intro: oAt_append)

lemma oAt_processQueue:
  "oAt i (heap g) \<Longrightarrow> processQueue this q qs g = Some g' \<Longrightarrow> oAt i (heap g')"
proof (induction q arbitrary: g qs)
  case Nil
  then show ?case by simp
next
  case (Cons ob obs)
  from Cons.prems(2) obtain sh p where c: "cleanShape ob = Some (sh, p)"
    by (cases "cleanShape ob") auto
  show ?case
  proof (cases "qs = 0")
    case True
    let ?g1 = "g\<lparr>heap := (heap g)[this := (heap g ! this)\<lparr>topLeft := p, shape := sh\<rparr>]\<rparr>"
    from Cons.prems(2) c True have r: "processQueue this obs (qs + 1) ?g1 = Some g'" by simp
    have "oAt i ((heap g)[this := (heap g ! this)\<lparr>topLeft := p, shape := sh\<rparr>])"
      using Cons.prems(1) by (intro oAt_update) (auto simp: oAt_def)
    then have "oAt i (heap ?g1)" by simp
    from Cons.IH[OF this r] show ?thesis .
  next
    case False
    with Cons.prems(2) c obtain n g1 where t: "Tet_constructor (Some (-1)) g = Some (n, g1)"
      by (cases "Tet_constructor (Some (-1)) g") auto
    let ?g2 = "g1\<lparr>heap := (heap g1)[n := (heap g1 ! n)
                         \<lparr>tetType := tetType (heap g1 ! this), topLeft := p, shape := sh\<rparr>],
                       allTets := allTets g1 @ [n]\<rparr>"
    from Cons.prems(2) c False t have r: "processQueue this obs (qs + 1) ?g2 = Some g'" by simp
    from Tet_constructor_frame[OF t] have n: "n = length (heap g)" by simp
    from Cons.prems(1) n have ni: "n \<noteq> i" by (auto simp: oAt_def)
    from oAt_Tet_constructor[OF Cons.prems(1) t] have "oAt i (heap g1)" .
    then have "oAt i ((heap g1)[n := (heap g1 ! n)
                         \<lparr>tetType := tetType (heap g1 ! this), topLeft := p, shape := sh\<rparr>])"
      using ni by (intro oAt_update) auto
    then have "oAt i (heap ?g2)" by simp
    from Cons.IH[OF this r] show ?thesis .
  qed
qed

lemma oAt_updateTet: "oAt i (heap g) \<Longrightarrow> updateTet this g = Some g' \<Longrightarrow> oAt i (heap g')"
  unfolding updateTet_def Let_def
  by (erule oAt_processQueue[rotated]) (simp split: if_splits)

lemma oAt_alterShape:
  assumes "oAt i (heap g)" and "alterShape this fullRows g = Some g'"
  shows "oAt i (heap g')"
proof -
  let ?g1 = "g\<lparr>heap := (heap g)[this := (heap g ! this)
            \<lparr>shape := zeroRows fullRows (row (topLeft (heap g ! this))) (shape (heap g ! this))\<rparr>]\<rparr>"
  have "oAt i ((heap g)[this := (heap g ! this)
            \<lparr>shape := zeroRows fullRows (row (topLeft (heap g ! this))) (shape (heap g ! this))\<rparr>])"
    using assms(1) by (intro oAt_update) (auto simp: oAt_def)
  then have "oAt i (heap ?g1)" by simp
  moreover from assms(2) have "updateTet this ?g1 = Some g'" by (simp add: alterShape_def)
  ultimately show ?thesis by (rule oAt_updateTet)
qed

lemma oAt_alterLoop:
  "oAt i (heap g) \<Longrightarrow> alterLoop xs fullRows g = Some g' \<Longrightarrow> oAt i (heap g')"
proof (induction xs arbitrary: g)
  case Nil
  then show ?case by simp
next
  case (Cons x xs)
  show ?case
  proof (cases "skipTet fullRows (row (topLeft (heap g ! x)))")
    case True
    with Cons show ?thesis by simp
  next
    case False
    with Cons.prems(2) obtain g1 where a: "alterShape x fullRows g = Some g1"
      and r: "alterLoop xs fullRows g1 = Some g'"
      by (cases "alterShape x fullRows g") auto
    from Cons.IH[OF oAt_alterShape[OF Cons.prems(1) a] r] show ?thesis .
  qed
qed

lemma oAt_alterShapes:
  "oAt i (heap g) \<Longrightarrow> alterShapes fullRows g = Some g' \<Longrightarrow> oAt i (heap g')"
  unfolding alterShapes_def by (auto split: option.splits dest: oAt_alterLoop)

lemma oAt_collided:
  assumes o: "oAt i (heap g)" and c: "collided this g = Some g'"
  shows "oAt i (heap g')"
proof -
  from c obtain L g1 where L: "getLanded None g = Some (L, g1)"
    by (auto simp: collided_def split: option.splits)
  from oAt_getLanded[OF o L] have o1: "oAt i (heap g1)" .
  from c L obtain fullRows where
    f: "findFullRows L [row (topLeft (heap g1 ! this)) ..< BOARD_ROW_NUM] = Some fullRows"
    by (auto simp: collided_def split: option.splits)
  show ?thesis
  proof (cases "length fullRows = 0")
    case True
    with c L f have "g' = g1\<lparr>updateLanded := True\<rparr>" by (simp add: collided_def Let_def)
    with o1 show ?thesis by simp
  next
    case False
    let ?g2 = "g1\<lparr>updateLanded := True,
                   score := score g1 + scoreGain (g1\<lparr>updateLanded := True\<rparr>) (length fullRows)\<rparr>"
    from False c L f obtain g3 where a: "alterShapes fullRows ?g2 = Some g3"
      and g': "g' = g3\<lparr>updateLanded := True, moveLoops := moveLoops g3 @ [this]\<rparr>"
      by (auto simp: collided_def Let_def split: option.splits)
    from o1 have "oAt i (heap ?g2)" by simp
    from oAt_alterShapes[OF this a] g' show ?thesis by simp
  qed
qed

lemma oAt_moveDown:
  assumes o: "oAt i (heap g)" and m: "moveDown this g = Some g'"
  shows "oAt i (heap g')"
proof -
  let ?p = "\<lparr>row = row (topLeft (heap g ! this)) + 1, col = col (topLeft (heap g ! this))\<rparr>"
  from m obtain b g1 where c: "doesTetCollideBot this ?p g = Some (b, g1)"
    by (cases "doesTetCollideBot this ?p g") (auto simp: moveDown_def Let_def)
  from oAt_doesTetCollideBot[OF o c] have o1: "oAt i (heap g1)" .
  show ?thesis
  proof (cases b)
    case True
    with m c have "collided this (g1\<lparr>newTet := True, currentTet := None, updateLanded := True\<rparr>) = Some g'"
      by (simp add: moveDown_def Let_def)
    moreover from o1 have "oAt i (heap (g1\<lparr>newTet := True, currentTet := None, updateLanded := True\<rparr>))"
      by simp
    ultimately show ?thesis by (rule oAt_collided[rotated])
  next
    case False
    with m c have "g' = g1\<lparr>heap := (heap g1)[this := (heap g1 ! this)\<lparr>topLeft := ?p\<rparr>]\<rparr>"
      by (simp add: moveDown_def Let_def)
    moreover have "oAt i ((heap g1)[this := (heap g1 ! this)\<lparr>topLeft := ?p\<rparr>])"
      using o1 by (intro oAt_update) (auto simp: oAt_def)
    ultimately show ?thesis by simp
  qed
qed

lemma oAt_settlePass:
  "oAt i (heap g) \<Longrightarrow> settlePass xs g mv m = Some (g', mv', m') \<Longrightarrow> oAt i (heap g')"
proof (induction xs arbitrary: g mv m)
  case Nil
  then show ?case by simp
next
  case (Cons x xs)
  show ?case
  proof (cases "x \<in> set mv \<or> (Some x = currentTet g \<and> \<not> newTet g)")
    case True
    with Cons show ?thesis by simp
  next
    case False
    let ?p = "\<lparr>row = row (topLeft (heap g ! x)) + 1, col = col (topLeft (heap g ! x))\<rparr>"
    from Cons.prems(2) False obtain b g1 where d: "doesTetCollideBot x ?p g = Some (b, g1)"
      by (auto simp: Let_def split: option.splits)
    from oAt_doesTetCollideBot[OF Cons.prems(1) d] have o1: "oAt i (heap g1)" .
    show ?thesis
    proof (cases b)
      case True
      with Cons.prems(2) False d have "settlePass xs g1 mv m = Some (g', mv', m')"
        by (simp add: Let_def)
      from Cons.IH[OF o1 this] show ?thesis .
    next
      case nb: False
      let ?g2 = "g1\<lparr>heap := (heap g1)[x := (heap g1 ! x)\<lparr>topLeft := ?p\<rparr>]\<rparr>"
      from nb Cons.prems(2) False d
      have r: "settlePass xs ?g2 (mv @ [x]) True = Some (g', mv', m')" by (simp add: Let_def)
      have "oAt i ((heap g1)[x := (heap g1 ! x)\<lparr>topLeft := ?p\<rparr>])"
        using o1 by (intro oAt_update) (auto simp: oAt_def)
      then have "oAt i (heap ?g2)" by simp
      from Cons.IH[OF this r] show ?thesis .
    qed
  qed
qed

lemma oAt_settleWhile:
  "oAt i (heap g) \<Longrightarrow> settleWhile g mv = Some (g', mv') \<Longrightarrow> oAt i (heap g')"
proof (induction g mv rule: settleWhile.induct)
  case (1 g mv)
  from "1.prems"(2) obtain g1 mv1 moved where
    sp: "settlePass (allTets g) g mv False = Some (g1, mv1, moved)"
    by (subst (asm) settleWhile.simps) (auto split: option.splits)
  from oAt_settlePass[OF "1.prems"(1) sp] have o1: "oAt i (heap (g1\<lparr>updateLanded := True\<rparr>))"
    by simp
  show ?case
  proof (cases moved)
    case True
    with "1.prems"(2) sp have r: "settleWhile (g1\<lparr>updateLanded := True\<rparr>) mv1 = Some (g', mv')"
      by (subst (asm) settleWhile.simps) simp
    from "1.IH"[OF sp refl refl True o1 r] show ?thesis .
  next
    case False
    with "1.prems"(2) sp have "g' = g1\<lparr>updateLanded := True\<rparr>"
      by (subst (asm) settleWhile.simps) simp
    with o1 show ?thesis by simp
  qed
qed

lemma oAt_moveLoopTick:
  assumes o: "oAt i (heap g)" and m: "moveLoopTick k g = Some g'"
  shows "oAt i (heap g')"
proof (cases "k < length (moveLoops g)")
  case False
  with m o show ?thesis by (simp add: moveLoopTick_def)
next
  case True
  with m obtain g1 mv where s: "settleRound g = Some (g1, mv)"
    by (cases "settleRound g") (auto simp: moveLoopTick_def)
  from s have "settleWhile g [] = Some (g1, mv)" by (simp add: settleRound_def)
  from oAt_settleWhile[OF o this] have o1: "oAt i (heap g1)" .
  show ?thesis
  proof (cases "length mv = 0")
    case nz: False
    with m True s have "g' = g1" by (simp add: moveLoopTick_def)
    with o1 show ?thesis by simp
  next
    case z: True
    let ?g2 = "g1\<lparr>moveLoops := take k (moveLoops g1) @ drop (k + 1) (moveLoops g1)\<rparr>"
    from z m True s have "collided (moveLoops g1 ! k) ?g2 = Some g'" by (simp add: moveLoopTick_def)
    moreover from o1 have "oAt i (heap ?g2)" by simp
    ultimately show ?thesis by (rule oAt_collided[rotated])
  qed
qed

lemma oAt_createTet:
  assumes o: "oAt i (heap g)" and c: "createTet g = Some g'"
  shows "oAt i (heap g')"
proof -
  from c obtain g4 where ch: "chooseTets g = Some g4"
    by (cases "chooseTets g") (auto simp: createTet_def)
  from chooseTets_frame[OF ch] obtain ts where "heap g4 = heap g @ ts" by blast
  with o have o4: "oAt i (heap g4)" by (simp add: oAt_append)
  from c ch obtain cur where cur: "currentTet g4 = Some cur"
    by (cases "currentTet g4") (auto simp: createTet_def)
  from c ch cur obtain b g5 where d: "doesTetCollideBot cur (topLeft (heap g4 ! cur)) g4 = Some (b, g5)"
    by (cases "doesTetCollideBot cur (topLeft (heap g4 ! cur)) g4") (auto simp: createTet_def)
  from oAt_doesTetCollideBot[OF o4 d] have o5: "oAt i (heap g5)" .
  from c ch cur d have "heap g' = heap g5" by (cases b) (auto simp: createTet_def)
  with o5 show ?thesis by simp
qed

lemma oAt_exec: "oAt i (heap g) \<Longrightarrow> exec c g = Some g' \<Longrightarrow> oAt i (heap g')"
proof (cases c)
  case LoopTick
  assume "oAt i (heap g)" "exec c g = Some g'"
  with LoopTick show ?thesis
    by (auto split: if_splits option.splits dest: oAt_createTet oAt_moveDown)
next
  case KeyLeft
  assume "oAt i (heap g)" "exec c g = Some g'"
  with KeyLeft show ?thesis
    by (auto split: if_splits option.splits bool.splits dest: oAt_moveLeft)
next
  case KeyRight
  assume "oAt i (heap g)" "exec c g = Some g'"
  with KeyRight show ?thesis
    by (auto split: if_splits option.splits bool.splits dest: oAt_moveRight)
next
  case KeyDown
  assume "oAt i (heap g)" "exec c g = Some g'"
  with KeyDown show ?thesis
    by (auto split: if_splits option.splits bool.splits dest: oAt_moveDown)
next
  case KeyUp
  assume "oAt i (heap g)" "exec c g = Some g'"
  with KeyUp show ?thesis
    by (auto split: if_splits option.splits bool.splits dest: oAt_rotate)
next
  case (MoveLoopTick k)
  assume "oAt i (heap g)" "exec c g = Some g'"
  with MoveLoopTick show ?thesis by (auto dest: oAt_moveLoopTick)
qed

lemma oAt_run: "oAt i (heap g) \<Longrightarrow> run cs g = Some g' \<Longrightarrow> oAt i (heap g')"
proof (induction cs arbitrary: g)
  case Nil
  then show ?case by simp
next
  case (Cons c cs)
  from Cons.prems(2) obtain g1 where e: "exec c g = Some g1" and r: "run cs g1 = Some g'"
    by (cases "exec c g") auto
  from Cons.IH[OF oAt_exec[OF Cons.prems(1) e] r] show ?case .
qed

text \<open>
  Claim C9, as stated, says that neither \<^verbatim>\<open>rotation\<close> nor \<^verbatim>\<open>pivot\<close> of an O ever
  changes. \<^verbatim>\<open>rotate\<close> has no case for the O: on an empty board the first \<open>KeyUp\<close> turns
  the \<^verbatim>\<open>rotation\<close> of the O from 0 to 1 (its shape is the same square).
\<close>

theorem O_rotation_changes:
  "map_option (\<lambda>g. (tetType (heap g ! 0), rotation (heap g ! 0), pivot (heap g ! 0), shape (heap g ! 0)))
     (play (\<lambda>_. 3) []) = Some (3, 0, 0, [[1, 1], [1, 1]]) \<and>
   map_option (\<lambda>g. (tetType (heap g ! 0), rotation (heap g ! 0), pivot (heap g ! 0), shape (heap g ! 0)))
     (play (\<lambda>_. 3) [KeyUp]) = Some (3, 1, 0, [[1, 1], [1, 1]])"
  by code_simp

text \<open>
  Claim C9, amended: an O whose \<^verbatim>\<open>pivot\<close> and \<^verbatim>\<open>pivotMax\<close> are 0 (as the constructor
  makes it) keeps its type, \<^verbatim>\<open>pivot = 0\<close> and \<^verbatim>\<open>pivotMax = 0\<close> through every sequence of
  commands (moves, rotations, timer ticks, falling animations). Its \<^verbatim>\<open>rotation\<close> does
  change: a rotation that succeeds advances it (to \<open>rotation + 1\<close>, or to 0 from 3)
  and leaves the shape the square \<open>[[1,1],[1,1]]\<close>.
\<close>

theorem O_keeps_pivot:
  assumes ref: "i < length (heap g)"
    and o: "tetType (heap g ! i) = 3" "pivot (heap g ! i) = 0" "pivotMax (heap g ! i) = 0"
  shows "(run cs g = Some g' \<longrightarrow>
            tetType (heap g' ! i) = 3 \<and> pivot (heap g' ! i) = 0 \<and> pivotMax (heap g' ! i) = 0) \<and>
         (rotate_tet i g = Some (True, g'') \<longrightarrow>
            rotation (heap g'' ! i) = (if rotation (heap g ! i) < 3 then rotation (heap g ! i) + 1 else 0) \<and>
            shape (heap g'' ! i) = [[1, 1], [1, 1]] \<and> pivot (heap g'' ! i) = 0)"
proof (intro conjI impI)
  from ref o have oa: "oAt i (heap g)" by (simp add: oAt_def)
  {
    assume "run cs g = Some g'"
    from oAt_run[OF oa this]
    show "tetType (heap g' ! i) = 3" "pivot (heap g' ! i) = 0" "pivotMax (heap g' ! i) = 0"
      by (simp_all add: oAt_def)
  }
  {
    assume r: "rotate_tet i g = Some (True, g'')"
    let ?potRot = "if rotation (heap g ! i) < 3 then rotation (heap g ! i) + 1 else 0"
    from rotate_tet_result[OF r] obtain L potShape t1 where
      m: "getShapeMatrix ?potRot (heap g ! i) = Some (potShape, t1)" and
      g'': "g'' = g\<lparr>landed := L, updateLanded := False,
                  heap := (heap g)[i := t1
                     \<lparr>topLeft := (topLeft t1)\<lparr>col := col (topLeft t1) + int (pivot t1)\<rparr>,
                      pivot := 0, rotation := ?potRot, shape := potShape\<rparr>]\<rparr>"
      by auto
    from m o(1) have "potShape = [[1, 1], [1, 1]]"
      by (simp add: getShapeMatrix_def matrixMatrix_def Let_def)
    with g'' ref show "rotation (heap g'' ! i) = ?potRot" "shape (heap g'' ! i) = [[1, 1], [1, 1]]"
      "pivot (heap g'' ! i) = 0"
      by simp_all
  }
qed

theorem O_keeps_pivot_witness:
  "\<exists>g g' g''. play (\<lambda>_. 3) [] = Some g \<and> run squareMoves g = Some g' \<and>
     tetType (heap g' ! 0) = 3 \<and> pivot (heap g' ! 0) = 0 \<and> pivotMax (heap g' ! 0) = 0 \<and>
     rotate_tet 0 g = Some (True, g'') \<and> rotation (heap g'' ! 0) = 1 \<and>
     shape (heap g'' ! 0) = [[1, 1], [1, 1]]"
proof -
  have "case play (\<lambda>_. 3) [] of None \<Rightarrow> False
        | Some g \<Rightarrow> 0 < length (heap g) \<and> tetType (heap g ! 0) = 3 \<and> pivot (heap g ! 0) = 0 \<and>
            pivotMax (heap g ! 0) = 0 \<and> rotation (heap g ! 0) = 0 \<and>
            (case rotate_tet 0 g of None \<Rightarrow> False | Some (b, g'') \<Rightarrow> b)"
    by code_simp
  then obtain g g'' where p: "play (\<lambda>_. 3) [] = Some g" and ref: "0 < length (heap g)"
    and o: "tetType (heap g ! 0) = 3" "pivot (heap g ! 0) = 0" "pivotMax (heap g ! 0) = 0"
    and r0: "rotation (heap g ! 0) = 0"
    and rot: "rotate_tet 0 g = Some (True, g'')"
    by (auto split: option.splits)
  have "case play (\<lambda>_. 3) squareMoves of None \<Rightarrow> False | Some g' \<Rightarrow> True" by code_simp
  then obtain g' where "play (\<lambda>_. 3) squareMoves = Some g'" by (auto split: option.splits)
  from play_run[OF p this] have r: "run squareMoves g = Some g'" .
  from O_keeps_pivot[OF ref o, of squareMoves g' g''] p r rot r0 show ?thesis by auto
qed

subsection \<open>C7: the falling animation stops at a fixed point\<close>

text \<open>
  The collision test of a Tet that is given to \<^verbatim>\<open>getLanded\<close> does not depend on the
  cached array.
\<close>

lemma getLanded_Some:
  "getLanded (Some i) g =
     map_option (\<lambda>L. (L, g\<lparr>landed := L, updateLanded := False\<rparr>))
       (stampTets (heap g) (currentTet g) (Some i) (allTets g)
          (replicate BOARD_ROW_NUM [0, 0, 0, 0, 0, 0, 0, 0, 0, 0]))"
  by (cases "stampTets (heap g) (currentTet g) (Some i) (allTets g)
          (replicate BOARD_ROW_NUM [0, 0, 0, 0, 0, 0, 0, 0, 0, 0])")
     (simp_all add: getLanded_def)

lemma doesTetCollideBot_cache:
  "doesTetCollideBot i p (g\<lparr>landed := L, updateLanded := u\<rparr>) = doesTetCollideBot i p g"
  by (simp add: doesTetCollideBot_def getLanded_Some)

lemma bottomBlocked_cache [simp]:
  "bottomBlocked (g\<lparr>landed := L, updateLanded := u\<rparr>) i = bottomBlocked g i"
  by (simp add: bottomBlocked_def doesTetCollideBot_cache)

lemma isActive_cache [simp]:
  "isActive (g\<lparr>landed := L, updateLanded := u\<rparr>) i = isActive g i"
  by (simp add: isActive_def)

lemma settlePass_step:
  "settlePass (x # xs) g mv m =
    (if x \<in> set mv \<or> isActive g x then settlePass xs g mv m
     else (case doesTetCollideBot x
                 \<lparr>row = row (topLeft (heap g ! x)) + 1, col = col (topLeft (heap g ! x))\<rparr> g of
             None \<Rightarrow> None
           | Some (True, g1) \<Rightarrow> settlePass xs g1 mv m
           | Some (False, g1) \<Rightarrow>
               settlePass xs
                 (g1\<lparr>heap := (heap g1)[x := (heap g1 ! x)
                    \<lparr>topLeft := \<lparr>row = row (topLeft (heap g ! x)) + 1,
                                 col = col (topLeft (heap g ! x))\<rparr>\<rparr>]\<rparr>)
                 (mv @ [x]) True))"
  by (simp only: settlePass.simps isActive_def Let_def)

lemma settlePass_frame:
  "settlePass xs g mv m = Some (g', mv', m') \<Longrightarrow>
     \<exists>h L u. g' = g\<lparr>heap := h, landed := L, updateLanded := u\<rparr>"
proof (induction xs arbitrary: g mv m)
  case Nil
  have "g = g\<lparr>heap := heap g, landed := landed g, updateLanded := updateLanded g\<rparr>" by simp
  with Nil show ?case by (metis Pair_inject option.inject settlePass.simps(1))
next
  case (Cons x xs)
  show ?case
  proof (cases "x \<in> set mv \<or> isActive g x")
    case True
    with Cons.prems have "settlePass xs g mv m = Some (g', mv', m')" by (simp add: settlePass_step del: settlePass.simps(2))
    from Cons.IH[OF this] show ?thesis .
  next
    case False
    let ?p = "\<lparr>row = row (topLeft (heap g ! x)) + 1, col = col (topLeft (heap g ! x))\<rparr>"
    from Cons.prems False obtain b g1 where d: "doesTetCollideBot x ?p g = Some (b, g1)"
      by (cases "doesTetCollideBot x ?p g") (auto simp: settlePass_step simp del: settlePass.simps(2))
    from doesTetCollideBot_frame[OF d] obtain L1 where
      g1: "g1 = g\<lparr>landed := L1, updateLanded := False\<rparr>" by blast
    show ?thesis
    proof (cases b)
      case True
      with Cons.prems False d have "settlePass xs g1 mv m = Some (g', mv', m')"
        by (simp add: settlePass_step del: settlePass.simps(2))
      from Cons.IH[OF this] g1 show ?thesis by auto
    next
      case nb: False
      let ?g2 = "g1\<lparr>heap := (heap g1)[x := (heap g1 ! x)\<lparr>topLeft := ?p\<rparr>]\<rparr>"
      from nb Cons.prems False d have "settlePass xs ?g2 (mv @ [x]) True = Some (g', mv', m')"
        by (simp add: settlePass_step del: settlePass.simps(2))
      from Cons.IH[OF this] g1 show ?thesis by auto
    qed
  qed
qed

lemma settleWhile_frame:
  "settleWhile g mv = Some (g', mv') \<Longrightarrow>
     (\<exists>h L u. g' = g\<lparr>heap := h, landed := L, updateLanded := u\<rparr>) \<and> set mv \<subseteq> set mv'"
proof (induction g mv rule: settleWhile.induct)
  case (1 g mv)
  from "1.prems" obtain g1 mv1 moved where
    sp: "settlePass (allTets g) g mv False = Some (g1, mv1, moved)"
    by (subst (asm) settleWhile.simps) (auto split: option.splits)
  from settlePass_frame[OF sp] obtain h L u where
    g1: "g1 = g\<lparr>heap := h, landed := L, updateLanded := u\<rparr>" by blast
  from settlePass_moving[OF sp] have sub: "set mv \<subseteq> set mv1" by simp
  show ?case
  proof (cases moved)
    case True
    with "1.prems" sp have r: "settleWhile (g1\<lparr>updateLanded := True\<rparr>) mv1 = Some (g', mv')"
      by (subst (asm) settleWhile.simps) simp
    from "1.IH"[OF sp refl refl True r] g1 sub show ?thesis by auto
  next
    case False
    with "1.prems" sp have "g' = g1\<lparr>updateLanded := True\<rparr>" "mv' = mv1"
      by (subst (asm) settleWhile.simps, simp)+
    with g1 sub show ?thesis by auto
  qed
qed

text \<open>
  A pass that moves nothing leaves the Tets as they are, and every Tet it tested is
  blocked.
\<close>

lemma settlePass_still:
  "settlePass xs g mv m = Some (g', [], m') \<Longrightarrow>
     mv = [] \<and> m' = m \<and> (\<exists>L u. g' = g\<lparr>landed := L, updateLanded := u\<rparr>) \<and>
     (\<forall>i \<in> set xs. \<not> isActive g i \<longrightarrow> bottomBlocked g i)"
proof (induction xs arbitrary: g mv m)
  case Nil
  have "g = g\<lparr>landed := landed g, updateLanded := updateLanded g\<rparr>" by simp
  with Nil show ?case by (metis Pair_inject empty_iff list.set(1) option.inject settlePass.simps(1))
next
  case (Cons x xs)
  from settlePass_moving[OF Cons.prems] have mv: "mv = []" by simp
  show ?case
  proof (cases "isActive g x")
    case True
    with Cons.prems have "settlePass xs g mv m = Some (g', [], m')" by (simp add: settlePass_step del: settlePass.simps(2))
    from Cons.IH[OF this] True show ?thesis by auto
  next
    case False
    let ?p = "\<lparr>row = row (topLeft (heap g ! x)) + 1, col = col (topLeft (heap g ! x))\<rparr>"
    from Cons.prems False mv obtain b g1 where d: "doesTetCollideBot x ?p g = Some (b, g1)"
      by (cases "doesTetCollideBot x ?p g") (auto simp: settlePass_step simp del: settlePass.simps(2))
    from doesTetCollideBot_frame[OF d] obtain L1 where
      g1: "g1 = g\<lparr>landed := L1, updateLanded := False\<rparr>" by blast
    have b
    proof (rule ccontr)
      assume "\<not> b"
      with Cons.prems False mv d
      have "settlePass xs (g1\<lparr>heap := (heap g1)[x := (heap g1 ! x)\<lparr>topLeft := ?p\<rparr>]\<rparr>) ([] @ [x]) True
              = Some (g', [], m')"
        by (simp add: settlePass_step del: settlePass.simps(2))
      from settlePass_moving[OF this] show False by simp
    qed
    with Cons.prems False mv d have r: "settlePass xs g1 mv m = Some (g', [], m')"
      by (simp add: settlePass_step del: settlePass.simps(2))
    from d \<open>b\<close> have bx: "bottomBlocked g x" by (simp add: bottomBlocked_def)
    from Cons.IH[OF r] g1 bx mv show ?thesis by auto
  qed
qed

text \<open>
  The same pass from a state with another \<^verbatim>\<open>landed\<close> cache.
\<close>

lemma settlePass_still_again:
  "settlePass xs g [] False = Some (g1, [], False) \<Longrightarrow>
   settlePass xs (g\<lparr>landed := L, updateLanded := u\<rparr>) [] False =
     Some (if \<exists>i \<in> set xs. \<not> isActive g i then g1 else g\<lparr>landed := L, updateLanded := u\<rparr>, [], False)"
proof (induction xs arbitrary: g L u)
  case Nil
  then show ?case by simp
next
  case (Cons x xs)
  show ?case
  proof (cases "isActive g x")
    case True
    with Cons.prems have "settlePass xs g [] False = Some (g1, [], False)"
      by (simp add: settlePass_step del: settlePass.simps(2))
    from Cons.IH[OF this, where L = L and u = u] True show ?thesis by (simp add: settlePass_step del: settlePass.simps(2))
  next
    case False
    let ?p = "\<lparr>row = row (topLeft (heap g ! x)) + 1, col = col (topLeft (heap g ! x))\<rparr>"
    from Cons.prems False obtain b ga where d: "doesTetCollideBot x ?p g = Some (b, ga)"
      by (cases "doesTetCollideBot x ?p g") (auto simp: settlePass_step simp del: settlePass.simps(2))
    have b
    proof (rule ccontr)
      assume "\<not> b"
      with Cons.prems False d
      have "settlePass xs (ga\<lparr>heap := (heap ga)[x := (heap ga ! x)\<lparr>topLeft := ?p\<rparr>]\<rparr>) ([] @ [x]) True
              = Some (g1, [], False)"
        by (simp add: settlePass_step del: settlePass.simps(2))
      from settlePass_moving[OF this] show False by simp
    qed
    with Cons.prems False d have r: "settlePass xs ga [] False = Some (g1, [], False)"
      by (simp add: settlePass_step del: settlePass.simps(2))
    from doesTetCollideBot_frame[OF d] obtain La where
      ga: "ga = g\<lparr>landed := La, updateLanded := False\<rparr>" by blast
    from Cons.IH[OF r, where L = La and u = False] ga
    have "settlePass xs ga [] False = Some (if \<exists>i \<in> set xs. \<not> isActive ga i then g1 else ga, [], False)"
      by simp
    with r have same: "(if \<exists>i \<in> set xs. \<not> isActive ga i then g1 else ga) = g1" by simp
    have "settlePass (x # xs) (g\<lparr>landed := L, updateLanded := u\<rparr>) [] False
            = settlePass xs ga [] False"
      using False d \<open>b\<close> by (simp add: settlePass_step doesTetCollideBot_cache del: settlePass.simps(2))
    with r False show ?thesis by simp
  qed
qed

text \<open>
  Claim C7: a round of the falling animation (\<open>settleRound\<close>, the body of the timer
  callback in \<^verbatim>\<open>collided\<close>) that moved a Tet leaves the animation running, so another
  round follows. A round that moved no Tet is a fixed point: the Tets are where they
  were, every Tet of \<^verbatim>\<open>allTets\<close> that is not the active one is blocked one row below
  its position, one more round from the state reached moves nothing and ends in the
  same state, and the callback stops the animation and calls \<^verbatim>\<open>collided\<close> again.
\<close>

theorem settle_round_fixed_point:
  assumes s: "settleRound g = Some (g1, movingTets)" and k: "k < length (moveLoops g)"
  shows "(movingTets \<noteq> [] \<longrightarrow> moveLoopTick k g = Some g1 \<and> moveLoops g1 = moveLoops g) \<and>
         (movingTets = [] \<longrightarrow>
            heap g1 = heap g \<and>
            (\<forall>i \<in> set (allTets g1). \<not> isActive g1 i \<longrightarrow> bottomBlocked g1 i) \<and>
            settleRound g1 = Some (g1, []) \<and>
            moveLoopTick k g =
              collided (moveLoops g ! k)
                (g1\<lparr>moveLoops := take k (moveLoops g) @ drop (k + 1) (moveLoops g)\<rparr>))"
proof (intro conjI impI)
  from s have sw: "settleWhile g [] = Some (g1, movingTets)" by (simp add: settleRound_def)
  from settleWhile_frame[OF sw] obtain h L u where
    fr: "g1 = g\<lparr>heap := h, landed := L, updateLanded := u\<rparr>" by blast
  then have ml: "moveLoops g1 = moveLoops g" by simp
  {
    assume "movingTets \<noteq> []"
    with s k show "moveLoopTick k g = Some g1" by (simp add: moveLoopTick_def)
    from ml show "moveLoops g1 = moveLoops g" .
  }
  {
    assume e: "movingTets = []"
    from sw obtain ga mv1 moved where
      sp: "settlePass (allTets g) g [] False = Some (ga, mv1, moved)"
      by (subst (asm) settleWhile.simps) (auto split: option.splits)
    have nm: "\<not> moved"
    proof
      assume moved
      with sw sp have r: "settleWhile (ga\<lparr>updateLanded := True\<rparr>) mv1 = Some (g1, movingTets)"
        by (subst (asm) settleWhile.simps) simp
      from settlePass_moving[OF sp] \<open>moved\<close> obtain i where "i \<in> set mv1" by auto
      with settleWhile_frame[OF r] e show False by auto
    qed
    with sw sp have g1: "g1 = ga\<lparr>updateLanded := True\<rparr>" and mv1: "mv1 = movingTets"
      by (subst (asm) settleWhile.simps, simp)+
    from sp mv1 e have sp0: "settlePass (allTets g) g [] False = Some (ga, [], moved)" by simp
    from settlePass_still[OF sp0] obtain La ua where
      ga: "ga = g\<lparr>landed := La, updateLanded := ua\<rparr>" and
      bl: "\<forall>i \<in> set (allTets g). \<not> isActive g i \<longrightarrow> bottomBlocked g i"
      by blast
    from g1 ga have g1': "g1 = g\<lparr>landed := La, updateLanded := True\<rparr>" by simp
    from g1' show "heap g1 = heap g" by simp
    from g1' bl show "\<forall>i \<in> set (allTets g1). \<not> isActive g1 i \<longrightarrow> bottomBlocked g1 i" by simp
    from sp0 nm have sp1: "settlePass (allTets g) g [] False = Some (ga, [], False)" by simp
    from settlePass_still_again[OF sp1, where L = La and u = True] g1'
    have again: "settlePass (allTets g1) g1 [] False =
        Some (if \<exists>i \<in> set (allTets g). \<not> isActive g i then ga else g1, [], False)"
      by simp
    have "(if \<exists>i \<in> set (allTets g). \<not> isActive g i then ga else g1)\<lparr>updateLanded := True\<rparr> = g1"
      using g1 g1' by simp
    with again have "settleWhile g1 [] = Some (g1, [])"
      by (subst settleWhile.simps) simp
    then show "settleRound g1 = Some (g1, [])" by (simp add: settleRound_def)
    from s k e ml show "moveLoopTick k g =
              collided (moveLoops g ! k)
                (g1\<lparr>moveLoops := take k (moveLoops g) @ drop (k + 1) (moveLoops g)\<rparr>)"
      by (simp add: moveLoopTick_def)
  }
qed

theorem settle_round_fixed_point_witness:
  "\<exists>g g1 g2. play (fst rowScenario) (snd rowScenario) = Some g \<and> moveLoops g = [2] \<and>
      settleRound g = Some (g1, [2]) \<and> moveLoopTick 0 g = Some g1 \<and> moveLoops g1 = [2] \<and>
      settleRound g1 = Some (g2, []) \<and> heap g2 = heap g1 \<and> allTets g2 = [2] \<and>
      bottomBlocked g2 2 \<and> settleRound g2 = Some (g2, []) \<and>
      moveLoopTick 0 g1 = collided 2 (g2\<lparr>moveLoops := []\<rparr>)"
proof -
  have "case play (fst rowScenario) (snd rowScenario) of None \<Rightarrow> False
        | Some g \<Rightarrow> moveLoops g = [2]"
    by code_simp
  then obtain g where p: "play (fst rowScenario) (snd rowScenario) = Some g"
    and ml: "moveLoops g = [2]"
    by (auto split: option.splits)
  have "case playRound rowScenario [] of None \<Rightarrow> False | Some (g1, mv) \<Rightarrow> mv = [2]"
    by code_simp
  with p obtain g1 where s: "settleRound g = Some (g1, [2])"
    by (auto simp: playRound_def split: option.splits)
  from ml have k: "0 < length (moveLoops g)" by simp
  from settle_round_fixed_point[OF s k] ml have
    t: "moveLoopTick 0 g = Some g1" and ml1: "moveLoops g1 = [2]" by simp_all
  have "case playRound rowScenario [MoveLoopTick 0] of None \<Rightarrow> False
        | Some (g2, mv) \<Rightarrow> mv = [] \<and> allTets g2 = [2] \<and> \<not> isActive g2 2"
    by code_simp
  moreover from p t have "play (fst rowScenario) (snd rowScenario @ [MoveLoopTick 0]) = Some g1"
    by (auto simp: play_def run_append split: option.splits)
  ultimately obtain g2 where s2: "settleRound g1 = Some (g2, [])" and a2: "allTets g2 = [2]"
    and na: "\<not> isActive g2 2"
    by (auto simp: playRound_def split: option.splits)
  from ml1 have k1: "0 < length (moveLoops g1)" by simp
  from settle_round_fixed_point[OF s2 k1] ml1 a2 na have
    "heap g2 = heap g1" "bottomBlocked g2 2" "settleRound g2 = Some (g2, [])"
    "moveLoopTick 0 g1 = collided 2 (g2\<lparr>moveLoops := []\<rparr>)"
    by simp_all
  with p ml s t ml1 s2 a2 show ?thesis by blast
qed

subsection \<open>C4: a Tet split by an eliminated row\<close>

text \<open>
  The queue that the first loop of \<^verbatim>\<open>updateTet\<close> builds: every entry has a row and no
  all-zero row, consecutive entries are separated by at least one board row, and the
  entries have, in order, exactly the cells of the shape.
\<close>

lemma arrayIsAllZeros_iff: "arrayIsAllZeros r = (\<forall>x \<in> set r. x = 0)"
  by (induction r) auto

lemma shapeCells_append:
  "shapeCells (a @ b) r c = shapeCells a r c @ shapeCells b (r + length a) c"
  by (induction a arbitrary: r) auto

lemma separated_snoc:
  "separated (q @ [x]) = (separated q \<and> (q \<noteq> [] \<longrightarrow> endRow (last q) < row (snd x)))"
  by (induction q rule: separated.induct) auto

lemma buildQueue_inv:
  assumes "list_all fragmentOK q" and "separated q"
    and "list_all (\<lambda>r. \<not> arrayIsAllZeros r) cur"
    and "cur \<noteq> [] \<longrightarrow> row tpl + length cur = row thisTL + k \<and> col tpl = col thisTL \<and>
           (q \<noteq> [] \<longrightarrow> endRow (last q) < row tpl)"
    and "cur = [] \<longrightarrow> q \<noteq> [] \<longrightarrow> endRow (last q) < row thisTL + k"
  shows "list_all fragmentOK (buildQueue rs k thisTL cur tpl q) \<and>
         separated (buildQueue rs k thisTL cur tpl q) \<and>
         concat (map obCells (buildQueue rs k thisTL cur tpl q)) =
           concat (map obCells q) @ shapeCells cur (row tpl) (col thisTL)
             @ shapeCells rs (row thisTL + k) (col thisTL)"
  using assms
proof (induction rs arbitrary: k cur tpl q)
  case Nil
  then show ?case
    by (auto simp: fragmentOK_def separated_snoc obCells_def endRow_def)
next
  case (Cons r rs)
  show ?case
  proof (cases "arrayIsAllZeros r")
    case False
    let ?tpl = "if length cur = 0 then \<lparr>row = row thisTL + k, col = col thisTL\<rparr> else tpl"
    have "list_all fragmentOK (buildQueue rs (k + 1) thisTL (cur @ [r]) ?tpl q) \<and>
         separated (buildQueue rs (k + 1) thisTL (cur @ [r]) ?tpl q) \<and>
         concat (map obCells (buildQueue rs (k + 1) thisTL (cur @ [r]) ?tpl q)) =
           concat (map obCells q) @ shapeCells (cur @ [r]) (row ?tpl) (col thisTL)
             @ shapeCells rs (row thisTL + (k + 1)) (col thisTL)"
      using Cons.prems False by (intro Cons.IH) auto
    with False Cons.prems(4) show ?thesis
      by (auto simp: shapeCells_append)
  next
    case True
    then have z: "rowCells r n c = []" for n c
      by (intro rowCells_zeros) (simp add: arrayIsAllZeros_iff)
    show ?thesis
    proof (cases "cur = []")
      case True
      have "list_all fragmentOK (buildQueue rs (k + 1) thisTL cur tpl q) \<and>
         separated (buildQueue rs (k + 1) thisTL cur tpl q) \<and>
         concat (map obCells (buildQueue rs (k + 1) thisTL cur tpl q)) =
           concat (map obCells q) @ shapeCells cur (row tpl) (col thisTL)
             @ shapeCells rs (row thisTL + (k + 1)) (col thisTL)"
        using Cons.prems True by (intro Cons.IH) auto
      with True \<open>arrayIsAllZeros r\<close> z show ?thesis by simp
    next
      case False
      have "list_all fragmentOK (buildQueue rs (k + 1) thisTL [] tpl (q @ [(cur, tpl)])) \<and>
         separated (buildQueue rs (k + 1) thisTL [] tpl (q @ [(cur, tpl)])) \<and>
         concat (map obCells (buildQueue rs (k + 1) thisTL [] tpl (q @ [(cur, tpl)]))) =
           concat (map obCells (q @ [(cur, tpl)])) @ shapeCells [] (row tpl) (col thisTL)
             @ shapeCells rs (row thisTL + (k + 1)) (col thisTL)"
        using Cons.prems False
        by (intro Cons.IH) (auto simp: fragmentOK_def separated_snoc endRow_def)
      moreover from False Cons.prems(4) have "obCells (cur, tpl) = shapeCells cur (row tpl) (col thisTL)"
        by (simp add: obCells_def)
      ultimately show ?thesis using False \<open>arrayIsAllZeros r\<close> z by simp
    qed
  qed
qed

lemma buildQueue_fragments:
  "list_all fragmentOK (buildQueue sh 0 p [] p []) \<and> separated (buildQueue sh 0 p [] p []) \<and>
   concat (map obCells (buildQueue sh 0 p [] p [])) = shapeCells sh (row p) (col p)"
  using buildQueue_inv[of "[]" "[]" p p 0 sh] by simp

text \<open>
  \<^verbatim>\<open>cleanShape\<close> returns for every entry of the queue, with a trimmed shape that has the
  cells, the first row and the number of rows of the entry.
\<close>

lemma stripLeadingColumns_startsPositive:
  assumes "stripLeadingColumns sh p = Some y"
  shows "list_ex startsPositive (fst y)"
proof (rule stripLeadingColumns.raw_induct[where P = "\<lambda>sh p y. list_ex startsPositive (fst y)", OF _ assms])
  fix f :: "matrix \<Rightarrow> point \<Rightarrow> (matrix \<times> point) option" and s q z
  assume ih: "\<And>s q z. f s q = Some z \<Longrightarrow> list_ex startsPositive (fst z)"
    and body: "(if list_ex startsPositive s then Some (s, q)
                else f (map (drop 1) s) (q\<lparr>col := col q + 1\<rparr>)) = Some z"
  show "list_ex startsPositive (fst z)"
  proof (cases "list_ex startsPositive s")
    case True
    with body show ?thesis by auto
  next
    case False
    with body have "f (map (drop 1) s) (q\<lparr>col := col q + 1\<rparr>) = Some z" by simp
    from ih[OF this] show ?thesis .
  qed
qed

lemma stripTrailingZeros_last:
  "\<exists>x \<in> set r. x \<noteq> 0 \<Longrightarrow> stripTrailingZeros r \<noteq> [] \<and> last (stripTrailingZeros r) \<noteq> 0"
proof -
  assume a: "\<exists>x \<in> set r. x \<noteq> 0"
  let ?d = "dropWhile (\<lambda>x. x = 0) (rev r)"
  from a have ne: "?d \<noteq> []" by (auto simp: dropWhile_eq_Nil_conv)
  then have "hd ?d \<noteq> 0" using hd_dropWhile[of "\<lambda>x. x = 0" "rev r"] by simp
  with ne show ?thesis by (simp add: stripTrailingZeros_def last_rev)
qed

lemma stripTrailingZeros_startsPositive:
  "startsPositive r \<Longrightarrow> startsPositive (stripTrailingZeros r)"
proof -
  assume a: "startsPositive r"
  then obtain x xs where r: "r = x # xs" and x: "x > 0" by (cases r) (auto simp: startsPositive_def)
  have "dropWhile (\<lambda>x. x = 0) (rev xs @ [x]) = dropWhile (\<lambda>x. x = 0) (rev xs) @ [x]"
    using x by (induction "rev xs" arbitrary: xs) (auto simp: dropWhile_append)
  with r x show ?thesis by (simp add: stripTrailingZeros_def startsPositive_def)
qed

lemma cleanShape_fragment:
  assumes "fragmentOK ob"
  shows "\<exists>c. cleanShape ob = Some c \<and> trimmed (fst c) \<and> row (snd c) = row (snd ob) \<and>
             length (fst c) = length (fst ob) \<and> obCells c = obCells ob"
proof -
  obtain sh p where ob: "ob = (sh, p)" by (cases ob)
  from assms ob have ne: "sh \<noteq> []" and nz: "\<forall>r \<in> set sh. \<exists>x \<in> set r. x \<noteq> 0"
    by (auto simp: fragmentOK_def list_all_iff arrayIsAllZeros_iff)
  from stripLeadingColumns_terminates[OF ne nz refl, of p] obtain k where
    z: "\<forall>r \<in> set sh. \<forall>x \<in> set (take k r). x = 0" and
    s: "stripLeadingColumns sh p = Some (map (drop k) sh, p\<lparr>col := col p + int k\<rparr>)"
    by blast
  let ?c = "(map (\<lambda>r. stripTrailingZeros (drop k r)) sh, p\<lparr>col := col p + int k\<rparr>)"
  from s have c: "cleanShape ob = Some ?c" by (simp add: cleanShape_def comp_def ob)
  from stripLeadingColumns_startsPositive[OF s] have "list_ex startsPositive (map (drop k) sh)" by simp
  then have sp: "list_ex startsPositive (fst ?c)"
    by (auto simp: list_ex_iff intro: stripTrailingZeros_startsPositive)
  have rows: "stripTrailingZeros (drop k r) \<noteq> [] \<and> last (stripTrailingZeros (drop k r)) \<noteq> 0"
    if r: "r \<in> set sh" for r
  proof -
    from nz r obtain x where x: "x \<in> set r" "x \<noteq> 0" by auto
    from x(1) have "x \<in> set (take k r) \<or> x \<in> set (drop k r)"
      by (metis Un_iff append_take_drop_id set_append)
    with z r x(2) have "\<exists>x \<in> set (drop k r). x \<noteq> 0" by auto
    then show ?thesis by (rule stripTrailingZeros_last)
  qed
  from ne sp rows have "trimmed (fst ?c)" by (auto simp: trimmed_def list_all_iff)
  moreover have "obCells ?c = obCells ob"
    using shapeCells_clean[OF z, of "row p" "col p"] by (simp add: obCells_def ob)
  ultimately show ?thesis using c by (simp add: ob)
qed

lemma cleanShape_fragments:
  "list_all fragmentOK q \<Longrightarrow>
   \<exists>cs. list_all2 (\<lambda>ob c. cleanShape ob = Some c \<and> trimmed (fst c) \<and> row (snd c) = row (snd ob) \<and>
             length (fst c) = length (fst ob) \<and> obCells c = obCells ob) q cs"
proof (induction q)
  case Nil
  then show ?case by simp
next
  case (Cons ob q)
  from Cons.prems have "fragmentOK ob" by simp
  from cleanShape_fragment[OF this] obtain c where
    "cleanShape ob = Some c \<and> trimmed (fst c) \<and> row (snd c) = row (snd ob) \<and>
     length (fst c) = length (fst ob) \<and> obCells c = obCells ob" by blast
  moreover from Cons obtain cs where
    "list_all2 (\<lambda>ob c. cleanShape ob = Some c \<and> trimmed (fst c) \<and> row (snd c) = row (snd ob) \<and>
             length (fst c) = length (fst ob) \<and> obCells c = obCells ob) q cs" by auto
  ultimately show ?case by (intro exI[of _ "c # cs"]) simp
qed

lemma separated_clean:
  "list_all2 (\<lambda>ob c. row (snd c) = row (snd ob) \<and> length (fst c) = length (fst ob)) q cs \<Longrightarrow>
   separated q \<Longrightarrow> separated cs"
  by (induction q arbitrary: cs rule: separated.induct) (auto simp: list_all2_Cons1 endRow_def)

text \<open>
  The second loop of \<^verbatim>\<open>updateTet\<close>, after its first iteration.
\<close>

lemma Tet_constructor_fragment:
  "Tet_constructor (Some (-1)) g = Some (length (heap g), g\<lparr>heap := heap g @ [blankTet]\<rparr>)"
  by (simp add: Tet_constructor_def blankTet_def)

lemma processQueue_rest:
  "this < length (heap g) \<Longrightarrow> 0 < qs \<Longrightarrow> list_all2 (\<lambda>ob c. cleanShape ob = Some c) obs cs \<Longrightarrow>
   processQueue this obs qs g =
     Some (g\<lparr>heap := heap g @ map (fragmentTet (tetType (heap g ! this))) cs,
            allTets := allTets g @ [length (heap g) ..< length (heap g) + length obs]\<rparr>)"
proof (induction obs arbitrary: cs qs g)
  case Nil
  then show ?case by simp
next
  case (Cons ob obs)
  from Cons.prems(3) obtain c cs' where cs: "cs = c # cs'" and c: "cleanShape ob = Some c"
    and rest: "list_all2 (\<lambda>ob c. cleanShape ob = Some c) obs cs'"
    by (auto simp: list_all2_Cons1)
  let ?n = "length (heap g)"
  let ?g = "g\<lparr>heap := heap g @ [fragmentTet (tetType (heap g ! this)) c], allTets := allTets g @ [?n]\<rparr>"
  have step: "processQueue this (ob # obs) qs g = processQueue this obs (qs + 1) ?g"
    using Cons.prems(1,2) c
    by (cases c) (simp add: Tet_constructor_fragment fragmentTet_def nth_append)
  from Cons.prems(1) have t: "this < length (heap ?g)" by simp
  have u: "[?n ..< ?n + length (ob # obs)] = ?n # [?n + 1 ..< ?n + 1 + length obs]"
    by (subst upt_conv_Cons) simp_all
  have "processQueue this obs (qs + 1) ?g =
     Some (?g\<lparr>heap := heap ?g @ map (fragmentTet (tetType (heap ?g ! this))) cs',
            allTets := allTets ?g @ [length (heap ?g) ..< length (heap ?g) + length obs]\<rparr>)"
    by (rule Cons.IH[OF t _ rest]) simp
  also have "\<dots> = Some (g\<lparr>heap := heap g @ map (fragmentTet (tetType (heap g ! this))) cs,
            allTets := allTets g @ [?n ..< ?n + length (ob # obs)]\<rparr>)"
    unfolding u using Cons.prems(1) by (simp add: cs nth_append)
  finally show ?case unfolding step .
qed

text \<open>
  Claim C4, as stated, makes every additional fragment a Tet of the fragment kind
  (\<^verbatim>\<open>type\<close> -1). \<^verbatim>\<open>updateTet\<close> constructs it with \<^verbatim>\<open>new Tet(this.game, -1)\<close> and then
  assigns \<^verbatim>\<open>newTet.type = this.type\<close>. An upright I (type 0) in rows 12 to 15 of column
  3, with row 14 eliminated: the Tet keeps rows 12 and 13, and the new Tet, the cell in
  row 15, has type 0.
\<close>

theorem fragment_keeps_type:
  "map_option (\<lambda>g. (map (\<lambda>t. (tetType t, shape t, row (topLeft t), col (topLeft t))) (heap g), allTets g))
     (alterShape 0 [14] (gameWith [tetAt 0 1 12 3] None))
   = Some ([(0, [[1], [1]], 12, 3), (0, [[1]], 15, 3)], [0, 1])"
  by code_simp

text \<open>
  Claim C4, amended: when the queue of \<^verbatim>\<open>updateTet\<close> has more than one entry,
  \<^verbatim>\<open>cleanShape\<close> returns for each of them, and \<^verbatim>\<open>updateTet\<close> returns: the first cleaned
  fragment replaces the \<^verbatim>\<open>topLeft\<close> and the shape of the Tet itself, in place; every
  other one is a new Tet, constructed as a fragment and given the type of the original
  Tet, at the end of the store and of \<^verbatim>\<open>allTets\<close>, in the order of the queue. Nothing
  else of the game changes. Every fragment is trimmed, consecutive fragments are
  separated by at least one board row, and the fragments have, in order, exactly the
  board cells of the Tet before the call.
\<close>

theorem updateTet_fragments:
  assumes t: "this < length (heap g)"
    and q: "q = buildQueue (shape (heap g ! this)) 0 (topLeft (heap g ! this)) []
                  (topLeft (heap g ! this)) []"
    and k: "1 < length q"
  shows "\<exists>cs. list_all2 (\<lambda>ob c. cleanShape ob = Some c) q cs \<and>
           updateTet this g =
             Some (g\<lparr>heap := (heap g)[this := (heap g ! this)\<lparr>topLeft := snd (hd cs), shape := fst (hd cs)\<rparr>]
                          @ map (fragmentTet (tetType (heap g ! this))) (tl cs),
                    allTets := allTets g @ [length (heap g) ..< length (heap g) + (length q - 1)]\<rparr>) \<and>
           list_all (\<lambda>c. trimmed (fst c)) cs \<and> separated cs \<and>
           concat (map obCells cs) = cellsOf (heap g ! this)"
proof -
  from buildQueue_fragments[of "shape (heap g ! this)" "topLeft (heap g ! this)"] q
  have ok: "list_all fragmentOK q" and sep: "separated q"
    and cells: "concat (map obCells q) = cellsOf (heap g ! this)"
    by (simp_all add: cellsOf_def)
  from cleanShape_fragments[OF ok] obtain cs where
    cs: "list_all2 (\<lambda>ob c. cleanShape ob = Some c \<and> trimmed (fst c) \<and> row (snd c) = row (snd ob) \<and>
             length (fst c) = length (fst ob) \<and> obCells c = obCells ob) q cs" by blast
  then have cl: "list_all2 (\<lambda>ob c. cleanShape ob = Some c) q cs"
    by (rule list_all2_mono) simp
  from cs have tr: "list_all (\<lambda>c. trimmed (fst c)) cs"
    by (auto simp: list_all2_conv_all_nth list_all_length)
  from cs have "list_all2 (\<lambda>ob c. row (snd c) = row (snd ob) \<and> length (fst c) = length (fst ob)) q cs"
    by (rule list_all2_mono) simp
  from separated_clean[OF this sep] have sc: "separated cs" .
  from cs have "map obCells cs = map obCells q"
    by (auto simp: list_all2_conv_all_nth intro: nth_equalityI)
  with cells have cc: "concat (map obCells cs) = cellsOf (heap g ! this)" by simp
  from k obtain ob obs where qq: "q = ob # obs" by (cases q) auto
  with cl obtain c cs' where ccs: "cs = c # cs'" and c: "cleanShape ob = Some c"
    and rest: "list_all2 (\<lambda>ob c. cleanShape ob = Some c) obs cs'"
    by (auto simp: list_all2_Cons1)
  let ?g = "g\<lparr>heap := (heap g)[this := (heap g ! this)\<lparr>topLeft := snd c, shape := fst c\<rparr>]\<rparr>"
  from t have t': "this < length (heap ?g)" by simp
  have "updateTet this g = processQueue this obs 1 ?g"
    using c q[symmetric] qq by (cases c) (simp add: updateTet_def Let_def)
  also have "\<dots> = Some (?g\<lparr>heap := heap ?g @ map (fragmentTet (tetType (heap ?g ! this))) cs',
            allTets := allTets ?g @ [length (heap ?g) ..< length (heap ?g) + length obs]\<rparr>)"
    by (rule processQueue_rest[OF t' _ rest]) simp
  finally have "updateTet this g =
             Some (g\<lparr>heap := (heap g)[this := (heap g ! this)\<lparr>topLeft := snd (hd cs), shape := fst (hd cs)\<rparr>]
                          @ map (fragmentTet (tetType (heap g ! this))) (tl cs),
                    allTets := allTets g @ [length (heap g) ..< length (heap g) + (length q - 1)]\<rparr>)"
    using t by (simp add: ccs qq)
  with cl tr sc cc show ?thesis by blast
qed

theorem updateTet_fragments_witness:
  "\<exists>g'. updateTet 0 splitScenario = Some g' \<and> allTets g' = [0, 1] \<and>
        map (\<lambda>t. (tetType t, shape t, row (topLeft t), col (topLeft t))) (heap g')
          = [(4, [[1]], 12, 3), (4, [[1]], 14, 4)] \<and>
        map cellsOf (heap g') = [[(12, 3)], [(14, 4)]] \<and>
        cellsOf (heap splitScenario ! 0) = [(12, 3), (14, 4)]"
proof -
  let ?g = splitScenario
  let ?q = "buildQueue (shape (heap ?g ! 0)) 0 (topLeft (heap ?g ! 0)) [] (topLeft (heap ?g ! 0)) []"
  have h: "heap ?g = [\<lparr>tetType = 4, rotation = 1, pivot = 0, pivotMax = 1,
                        topLeft = \<lparr>row = 12, col = 3\<rparr>, shape = [[1], [0, 0], [0, 1]]\<rparr>]"
    by code_simp
  have a: "allTets ?g = [0]" by code_simp
  have q: "?q = [([[1]], \<lparr>row = 12, col = 3\<rparr>), ([[0, 1]], \<lparr>row = 14, col = 3\<rparr>)]"
    unfolding h by code_simp
  have c1: "cleanShape ([[1]], \<lparr>row = 12, col = 3\<rparr>) = Some ([[1]], \<lparr>row = 12, col = 3\<rparr>)"
    by code_simp
  have c2: "cleanShape ([[0, 1]], \<lparr>row = 14, col = 3\<rparr>) = Some ([[1]], \<lparr>row = 14, col = 4\<rparr>)"
    by code_simp
  have t: "0 < length (heap ?g)" by (simp add: h)
  have k: "1 < length ?q" by (simp add: q)
  from updateTet_fragments[OF t refl k] obtain cs where
    cl: "list_all2 (\<lambda>ob c. cleanShape ob = Some c) ?q cs" and
    u: "updateTet 0 ?g =
          Some (?g\<lparr>heap := (heap ?g)[0 := (heap ?g ! 0)\<lparr>topLeft := snd (hd cs), shape := fst (hd cs)\<rparr>]
                          @ map (fragmentTet (tetType (heap ?g ! 0))) (tl cs),
                    allTets := allTets ?g @ [length (heap ?g) ..< length (heap ?g) + (length ?q - 1)]\<rparr>)"
    by blast
  from cl have cs: "cs = [([[1]], \<lparr>row = 12, col = 3\<rparr>), ([[1]], \<lparr>row = 14, col = 4\<rparr>)]"
    unfolding q list_all2_Cons1 list_all2_Nil c1 c2 by (metis option.inject)
  show ?thesis
    unfolding u by (simp add: cs h a q fragmentTet_def blankTet_def cellsOf_def)
qed

subsection \<open>C2: the score of a landing\<close>








text \<open>
  An array that \<^verbatim>\<open>getLanded\<close> builds has 16 rows.
\<close>

lemma stampRow_length: "stampRow xs r c L = Some L' \<Longrightarrow> length L' = length L"
  by (induction xs arbitrary: c L) (auto simp: setLanded_def split: if_splits option.splits)

lemma stampShape_length: "stampShape sh r c L = Some L' \<Longrightarrow> length L' = length L"
  by (induction sh arbitrary: r L) (auto split: option.splits dest: stampRow_length)

lemma stampTets_length: "stampTets h cur tet is L = Some L' \<Longrightarrow> length L' = length L"
  by (induction "is" arbitrary: L) (auto split: if_splits option.splits dest: stampShape_length)

lemma getLanded_rows:
  "getLanded tet g = Some (L, g1) \<Longrightarrow> tet \<noteq> None \<or> updateLanded g \<or> length (landed g) = BOARD_ROW_NUM \<Longrightarrow>
   length L = BOARD_ROW_NUM"
  by (auto simp: getLanded_def Let_def split: if_splits option.splits dest: stampTets_length)



end
